theory Spec2Isabelle
  imports Main "HOL-Library.Word" "HOL-Library.Multiset"
begin

section \<open>Engine types shared by both components\<close>

text \<open>
  \<open>UE_LOG(LogTemp, ...)\<close> appends a line to the engine's output log. The log is a global
  sink; each component model carries it as the field \<open>LogTemp\<close> so that "logs a warning"
  is a statement about the state. Both components derive from \<open>UActorComponent\<close>, whose
  only state the code touches is whether the component ticks
  (\<open>SetComponentTickEnabled\<close>).
\<close>

datatype ELogVerbosity = Log | Warning | Error

type_synonym log_line = "ELogVerbosity \<times> string"

record UActorComponent =
  ComponentTickEnabled :: bool
  LogTemp :: "log_line list"

definition UE_LOG ::
  "ELogVerbosity \<Rightarrow> string \<Rightarrow> 'z UActorComponent_scheme \<Rightarrow> 'z UActorComponent_scheme" where
  "UE_LOG v msg c = c\<lparr>LogTemp := LogTemp c @ [(v, msg)]\<rparr>"

subsection \<open>FString\<close>

text \<open>
  \<open>FString::ToLower\<close> and the engine's case-insensitive comparison fold the ASCII letters
  only (\<open>Char + ((uint32(Char) - 'A' < 26u) << 5)\<close>).
\<close>

definition ToLowerChar :: "char \<Rightarrow> char" where
  "ToLowerChar c =
     (if 65 \<le> (of_char c :: nat) \<and> (of_char c :: nat) \<le> 90
      then char_of (of_char c + (32::nat)) else c)"

definition ToUpperChar :: "char \<Rightarrow> char" where
  "ToUpperChar c =
     (if 97 \<le> (of_char c :: nat) \<and> (of_char c :: nat) \<le> 122
      then char_of (of_char c - (32::nat)) else c)"

definition ToLower :: "string \<Rightarrow> string" where
  "ToLower s = map ToLowerChar s"

text \<open>
  \<open>Str.Contains(SubStr)\<close> is called with its default arguments, that is with
  \<open>ESearchCase::IgnoreCase\<close>, searching from the start. It is engine code. For a pattern
  of at least one character it is modelled by its contract, a scan for the first position
  at which the pattern matches ignoring case: \<open>StartsWithIgnoreCase sub s\<close> is the comparison
  at one position, \<open>FindIgnoreCase s sub\<close> the scan over the positions of \<open>s\<close>.

  What the engine answers on a pattern of length zero is not fixed by the code and differs
  between engine versions: \<open>FCString::Strnistr\<close> returns the start of the string, the older
  \<open>FCString::Stristr\<close> compares the pattern's first letter, the terminator, with each letter
  of the string and finds nothing. That answer is the parameter \<open>OnEmptyPattern\<close>, a
  function of the string that is searched.
\<close>

fun StartsWithIgnoreCase :: "string \<Rightarrow> string \<Rightarrow> bool" where
  "StartsWithIgnoreCase [] s = True"
| "StartsWithIgnoreCase (f # fs) [] = False"
| "StartsWithIgnoreCase (f # fs) (c # cs) =
     (ToUpperChar f = ToUpperChar c \<and> StartsWithIgnoreCase fs cs)"

fun FindIgnoreCase :: "string \<Rightarrow> string \<Rightarrow> bool" where
  "FindIgnoreCase [] sub = StartsWithIgnoreCase sub []"
| "FindIgnoreCase (c # cs) sub = (StartsWithIgnoreCase sub (c # cs) \<or> FindIgnoreCase cs sub)"

definition Contains :: "(string \<Rightarrow> bool) \<Rightarrow> string \<Rightarrow> string \<Rightarrow> bool" where
  "Contains OnEmptyPattern s sub =
     (if sub = [] then OnEmptyPattern s else FindIgnoreCase s sub)"

text \<open>The two answers of the engine versions named above.\<close>

definition Strnistr_on_empty :: "string \<Rightarrow> bool" where
  "Strnistr_on_empty s = True"

definition Stristr_on_empty :: "string \<Rightarrow> bool" where
  "Stristr_on_empty s = False"

section \<open>GameplayEventLogger\<close>

text \<open>
  \<open>FGameplayEventEntry\<close>. \<open>GameTime\<close> is a \<open>float\<close> and \<open>RealTimestamp\<close> an \<open>FDateTime\<close>;
  the logger only stores and prints them, so both are type parameters.
\<close>

record ('t, 'd) FGameplayEventEntry =
  EventName :: string
  Context :: string
  GameTime :: 't
  RealTimestamp :: 'd

text \<open>
  The component's state: the member \<open>EventLog\<close> on top of the base. The mutex is not
  modelled: every operation holds it for its whole body, the model is sequential.
\<close>

record ('t, 'd) UGameplayEventLogger = UActorComponent +
  EventLog :: "('t, 'd) FGameplayEventEntry list"

text \<open>The constructor: the logger never ticks, and its log starts empty.\<close>

definition NewGameplayEventLogger :: "('t, 'd) UGameplayEventLogger" where
  "NewGameplayEventLogger = \<lparr>ComponentTickEnabled = False, LogTemp = [], EventLog = []\<rparr>"

text \<open>
  \<open>LogEvent\<close>. The host supplies what the body reads from outside: whether the build is
  \<open>WITH_EDITOR\<close>, the world's time (\<open>None\<close> when \<open>GetWorld()\<close> is null), \<open>FDateTime::UtcNow()\<close>
  and the formatting of the editor's log line.
\<close>

definition LogEvent ::
  "bool \<Rightarrow> ('t::zero) option \<Rightarrow> 'd \<Rightarrow> (('t, 'd) FGameplayEventEntry \<Rightarrow> string)
     \<Rightarrow> string \<Rightarrow> string \<Rightarrow> ('t, 'd) UGameplayEventLogger \<Rightarrow> ('t, 'd) UGameplayEventLogger" where
  "LogEvent WITH_EDITOR WorldTime UtcNow Printf Name Ctx lg =
     (if Name = [] then
        UE_LOG Warning ''[GameplayEventLogger] LogEvent called with empty EventName.'' lg
      else
        let CurrentGameTime = (case WorldTime of None \<Rightarrow> 0 | Some t \<Rightarrow> t);
            NewEntry = \<lparr>EventName = Name, Context = Ctx, GameTime = CurrentGameTime,
                        RealTimestamp = UtcNow\<rparr>;
            lg' = lg\<lparr>EventLog := EventLog lg @ [NewEntry]\<rparr>
        in if WITH_EDITOR then UE_LOG Log (Printf NewEntry) lg' else lg')"

definition ClearLog :: "('t, 'd) UGameplayEventLogger \<Rightarrow> ('t, 'd) UGameplayEventLogger" where
  "ClearLog lg = lg\<lparr>EventLog := []\<rparr>"

definition GetEventLog ::
  "('t, 'd) UGameplayEventLogger \<Rightarrow> ('t, 'd) FGameplayEventEntry list" where
  "GetEventLog lg = EventLog lg"

definition GetEventCount :: "('t, 'd) UGameplayEventLogger \<Rightarrow> nat" where
  "GetEventCount lg = length (EventLog lg)"

subsection \<open>Search\<close>

text \<open>The two range-for loops, with \<open>Results\<close> as the accumulator.\<close>

fun SearchEventsByName_loop ::
  "(string \<Rightarrow> bool) \<Rightarrow> string \<Rightarrow> ('t, 'd) FGameplayEventEntry list
     \<Rightarrow> ('t, 'd) FGameplayEventEntry list \<Rightarrow> ('t, 'd) FGameplayEventEntry list" where
  "SearchEventsByName_loop OnEmptyPattern SearchTermLower [] Results = Results"
| "SearchEventsByName_loop OnEmptyPattern SearchTermLower (Entry # rest) Results =
     (if Contains OnEmptyPattern (ToLower (EventName Entry)) SearchTermLower
      then SearchEventsByName_loop OnEmptyPattern SearchTermLower rest (Results @ [Entry])
      else SearchEventsByName_loop OnEmptyPattern SearchTermLower rest Results)"

definition SearchEventsByName ::
  "(string \<Rightarrow> bool) \<Rightarrow> string \<Rightarrow> ('t, 'd) UGameplayEventLogger
     \<Rightarrow> ('t, 'd) FGameplayEventEntry list" where
  "SearchEventsByName OnEmptyPattern SearchTerm lg =
     SearchEventsByName_loop OnEmptyPattern (ToLower SearchTerm) (EventLog lg) []"

fun SearchEventsByContext_loop ::
  "(string \<Rightarrow> bool) \<Rightarrow> string \<Rightarrow> ('t, 'd) FGameplayEventEntry list
     \<Rightarrow> ('t, 'd) FGameplayEventEntry list \<Rightarrow> ('t, 'd) FGameplayEventEntry list" where
  "SearchEventsByContext_loop OnEmptyPattern SearchTermLower [] Results = Results"
| "SearchEventsByContext_loop OnEmptyPattern SearchTermLower (Entry # rest) Results =
     (if Contains OnEmptyPattern (ToLower (Context Entry)) SearchTermLower
      then SearchEventsByContext_loop OnEmptyPattern SearchTermLower rest (Results @ [Entry])
      else SearchEventsByContext_loop OnEmptyPattern SearchTermLower rest Results)"

definition SearchEventsByContext ::
  "(string \<Rightarrow> bool) \<Rightarrow> string \<Rightarrow> ('t, 'd) UGameplayEventLogger
     \<Rightarrow> ('t, 'd) FGameplayEventEntry list" where
  "SearchEventsByContext OnEmptyPattern SearchTerm lg =
     SearchEventsByContext_loop OnEmptyPattern (ToLower SearchTerm) (EventLog lg) []"

subsection \<open>CSV export\<close>

text \<open>
  \<open>SanitizeForCSV\<close>: \<open>ReplaceInline\<close> doubles every quote character, then the field is
  wrapped in quotes.
\<close>

definition DoubleQuote :: char where
  "DoubleQuote = CHR 0x22"

definition ReplaceQuotes :: "string \<Rightarrow> string" where
  "ReplaceQuotes s = concat (map (\<lambda>c. if c = DoubleQuote then [DoubleQuote, DoubleQuote] else [c]) s)"

definition SanitizeForCSV :: "(string \<Rightarrow> bool) \<Rightarrow> string \<Rightarrow> string" where
  "SanitizeForCSV OnEmptyPattern Input =
     (if Contains OnEmptyPattern Input [DoubleQuote] \<or> Contains OnEmptyPattern Input '',''
      then [DoubleQuote] @ ReplaceQuotes Input @ [DoubleQuote]
      else Input)"

text \<open>
  One row of the file, \<open>Printf("%.3f,%s,%s,%s\n", ...)\<close>. The rendering of the float
  (\<open>%.3f\<close>) and \<open>FDateTime::ToString\<close> are the host's.
\<close>

definition CSVRow ::
  "(string \<Rightarrow> bool) \<Rightarrow> ('t \<Rightarrow> string) \<Rightarrow> ('d \<Rightarrow> string)
     \<Rightarrow> ('t, 'd) FGameplayEventEntry \<Rightarrow> string" where
  "CSVRow OnEmptyPattern Printf3f ToString Entry =
     Printf3f (GameTime Entry) @ '','' @ SanitizeForCSV OnEmptyPattern (EventName Entry) @ '','' @
     SanitizeForCSV OnEmptyPattern (Context Entry) @ '','' @ ToString (RealTimestamp Entry) @
     [CHR 0x0A]"

fun CSVContent_loop ::
  "(string \<Rightarrow> bool) \<Rightarrow> ('t \<Rightarrow> string) \<Rightarrow> ('d \<Rightarrow> string)
     \<Rightarrow> ('t, 'd) FGameplayEventEntry list \<Rightarrow> string \<Rightarrow> string" where
  "CSVContent_loop OnEmptyPattern Printf3f ToString [] CSV = CSV"
| "CSVContent_loop OnEmptyPattern Printf3f ToString (Entry # rest) CSV =
     CSVContent_loop OnEmptyPattern Printf3f ToString rest
       (CSV @ CSVRow OnEmptyPattern Printf3f ToString Entry)"

text \<open>
  \<open>ExportLogToCSV\<close>. The file system is a state \<open>'fs\<close> of the host, and
  \<open>FFileHelper::SaveStringToFile\<close> a function of the host that takes the content, the path
  and the file system and returns whether it saved, with the file system it leaves. The
  result is the returned flag, the file system and the logger (whose output log alone can
  change: the method is \<open>const\<close>).
\<close>

definition ExportLogToCSV ::
  "(string \<Rightarrow> bool) \<Rightarrow> (string \<Rightarrow> string \<Rightarrow> 'fs \<Rightarrow> bool \<times> 'fs)
     \<Rightarrow> ('t \<Rightarrow> string) \<Rightarrow> ('d \<Rightarrow> string)
     \<Rightarrow> string \<Rightarrow> 'fs \<Rightarrow> ('t, 'd) UGameplayEventLogger
     \<Rightarrow> bool \<times> 'fs \<times> ('t, 'd) UGameplayEventLogger" where
  "ExportLogToCSV OnEmptyPattern SaveStringToFile Printf3f ToString FilePath fs lg =
     (if length (EventLog lg) = 0 then
        (False, fs, UE_LOG Warning ''[GameplayEventLogger] No events to export.'' lg)
      else
        let CSV = CSVContent_loop OnEmptyPattern Printf3f ToString (EventLog lg)
                    (''GameTime,EventName,Context,UTC_Timestamp'' @ [CHR 0x0A]);
            (bSaved, fs') = SaveStringToFile CSV FilePath fs
        in if \<not> bSaved
           then (bSaved, fs',
                 UE_LOG Error (''[GameplayEventLogger] Failed to save CSV to path: '' @ FilePath) lg)
           else (bSaved, fs', lg))"

section \<open>MemoryUsageTracker\<close>

subsection \<open>Objects, reflection and the host\<close>

text \<open>
  An object is known by its identity. Reflection (\<open>TFieldIterator<FProperty>\<close> over the
  object's class, with the value of each property read from the object) gives, per object,
  the list of its properties in order. A property is one of the classes the two walkers
  distinguish with \<open>CastField\<close>, and carries what the code reads from it:
  \<^item> \<open>FArrayProperty\<close>: \<open>Inner->ElementSize\<close> and the array; the array's elements are
    object pointers when \<open>Inner\<close> is an \<open>FObjectPropertyBase\<close>, and for any other \<open>Inner\<close>
    only their number is read;
  \<^item> \<open>FStrProperty\<close>: \<open>GetAllocatedSize()\<close> of the string (a \<open>SIZE_T\<close>);
  \<^item> \<open>FNameProperty\<close>: nothing;
  \<^item> \<open>FObjectPropertyBase\<close>: the pointer \<open>GetObjectPropertyValue\<close> returns, null or an
    object;
  \<^item> any other property: its \<open>ElementSize\<close>.
  The iterator yields no null property and \<open>ContainerPtrToValuePtr\<close> no null value for an
  object, so the guards \<open>if (!Property) continue\<close> and \<open>if (StrPtr)\<close> are always passed.
\<close>

type_synonym UObject = nat
type_synonym int32 = "32 word"
type_synonym int64 = "64 word"

datatype FScriptArray =
    ObjectElements "UObject option list"
  | OtherElements nat

datatype FProperty =
    FArrayProperty int32 FScriptArray
  | FStrProperty int64
  | FNameProperty
  | FObjectPropertyBase "UObject option"
  | FOtherProperty int32

text \<open>\<open>FScriptArrayHelper::Num()\<close>, an \<open>int32\<close>.\<close>

fun Num :: "FScriptArray \<Rightarrow> int32" where
  "Num (ObjectElements es) = of_nat (length es)"
| "Num (OtherElements n) = of_nat n"

text \<open>
  The heap lists the objects with their properties. A pointer to an object outside the
  heap is dangling, which C++ leaves undefined; the model gives such an object no
  properties.
\<close>

type_synonym heap = "(UObject \<times> FProperty list) list"

definition Properties :: "heap \<Rightarrow> UObject \<Rightarrow> FProperty list" where
  "Properties h x = (case map_of h x of None \<Rightarrow> [] | Some ps \<Rightarrow> ps)"

text \<open>
  What the tracker reads from the engine: the heap, the state of each object as the
  garbage collector sees it, \<open>GetName()\<close> and \<open>sizeof(UObject)\<close>.
\<close>

datatype EObjectState = Live | PendingKill | Destroyed

record Engine =
  Heap :: heap
  ObjectState :: "UObject \<Rightarrow> EObjectState"
  GetName :: "UObject \<Rightarrow> string"
  sizeof_UObject :: int64

text \<open>
  \<open>TWeakObjectPtr<UObject>\<close>: null, or the identity of an object that may be gone by now.
  \<open>IsValid()\<close> (the conversion to \<open>bool\<close>) holds when the object is still there and not
  pending kill; \<open>Get()\<close> returns the object under the same condition and null otherwise.
\<close>

type_synonym TWeakObjectPtr = "UObject option"

definition Get :: "Engine \<Rightarrow> TWeakObjectPtr \<Rightarrow> UObject option" where
  "Get E p = (case p of None \<Rightarrow> None
              | Some x \<Rightarrow> if ObjectState E x = Live then Some x else None)"

definition IsValid :: "Engine \<Rightarrow> TWeakObjectPtr \<Rightarrow> bool" where
  "IsValid E p = (case p of None \<Rightarrow> False | Some x \<Rightarrow> ObjectState E x = Live)"

definition IsPendingKill :: "Engine \<Rightarrow> UObject \<Rightarrow> bool" where
  "IsPendingKill E x = (ObjectState E x = PendingKill)"

subsection \<open>TArray\<close>

text \<open>
  \<open>operator[]\<close> and \<open>RemoveAtSwap\<close> check their index and abort outside the range: the
  result is \<open>None\<close> then. \<open>RemoveAtSwap\<close> moves the last element into the hole and drops
  the last slot.
\<close>

definition At :: "'a list \<Rightarrow> nat \<Rightarrow> 'a option" where
  "At xs i = (if i < length xs then Some (xs ! i) else None)"

definition RemoveAtSwap :: "nat \<Rightarrow> 'a list \<Rightarrow> 'a list option" where
  "RemoveAtSwap i xs = (if i < length xs then Some (butlast (xs[i := last xs])) else None)"

subsection \<open>The component\<close>

record FMemoryUsageInfo =
  ObjectName :: string
  TrackedObject :: "UObject option"
  MemoryBytes :: int64
  NumReferencedObjects :: int32

text \<open>
  The two \<open>float\<close> members have a type parameter: the code adds, compares and resets
  them, and no law of arithmetic is assumed of these operations.
\<close>

record 't UMemoryUsageTracker = UActorComponent +
  TimeAccumulator :: 't
  SampleInterval :: 't
  TrackedObjects :: "TWeakObjectPtr list"
  CachedMemoryInfo :: "FMemoryUsageInfo list"

text \<open>
  The constructor with the in-class initialisers. The default interval \<open>5.0f\<close> is passed
  in, as is \<open>0.01f\<close> to \<open>StartTracking\<close>. A component that can ever tick starts with its tick
  enabled.
\<close>

definition NewMemoryUsageTracker :: "'t \<Rightarrow> ('t::zero) UMemoryUsageTracker" where
  "NewMemoryUsageTracker Five =
     \<lparr>ComponentTickEnabled = True, LogTemp = [], TimeAccumulator = 0, SampleInterval = Five,
      TrackedObjects = [], CachedMemoryInfo = []\<rparr>"

definition BeginPlay :: "('t::zero) UMemoryUsageTracker \<Rightarrow> 't UMemoryUsageTracker" where
  "BeginPlay T = T\<lparr>TimeAccumulator := 0\<rparr>"

text \<open>\<open>FMath::Max(A, B)\<close> is \<open>(B < A) ? A : B\<close>.\<close>

definition StartTracking ::
  "'t \<Rightarrow> 't \<Rightarrow> ('t::ord) UMemoryUsageTracker \<Rightarrow> 't UMemoryUsageTracker" where
  "StartTracking Hundredth SamplingInterval T =
     T\<lparr>SampleInterval := (if Hundredth < SamplingInterval then SamplingInterval else Hundredth),
       ComponentTickEnabled := True\<rparr>"

definition StopTracking :: "'t UMemoryUsageTracker \<Rightarrow> 't UMemoryUsageTracker" where
  "StopTracking T = T\<lparr>ComponentTickEnabled := False\<rparr>"

definition EndPlay :: "'t UMemoryUsageTracker \<Rightarrow> 't UMemoryUsageTracker" where
  "EndPlay T = StopTracking T"

definition ClearCachedInfo :: "'t UMemoryUsageTracker \<Rightarrow> 't UMemoryUsageTracker" where
  "ClearCachedInfo T = T\<lparr>CachedMemoryInfo := []\<rparr>"

definition GetTrackedMemoryInfo :: "'t UMemoryUsageTracker \<Rightarrow> FMemoryUsageInfo list" where
  "GetTrackedMemoryInfo T = CachedMemoryInfo T"

subsection \<open>RegisterObject and UnregisterObject\<close>

text \<open>The range-for of \<open>RegisterObject\<close>: true when it returns early, on a handle that resolves
  to the argument.\<close>

fun AlreadyTracked :: "Engine \<Rightarrow> UObject \<Rightarrow> TWeakObjectPtr list \<Rightarrow> bool" where
  "AlreadyTracked E ObjectToTrack [] = False"
| "AlreadyTracked E ObjectToTrack (WeakObj # rest) =
     (if Get E WeakObj = Some ObjectToTrack then True
      else AlreadyTracked E ObjectToTrack rest)"

definition RegisterObject ::
  "Engine \<Rightarrow> UObject option \<Rightarrow> 't UMemoryUsageTracker \<Rightarrow> 't UMemoryUsageTracker" where
  "RegisterObject E ObjectToTrack T =
     (case ObjectToTrack of
        None \<Rightarrow> UE_LOG Warning ''[MemoryUsageTracker] RegisterObject called with null.'' T
      | Some x \<Rightarrow>
          if AlreadyTracked E x (TrackedObjects T) then T
          else T\<lparr>TrackedObjects := TrackedObjects T @ [Some x]\<rparr>)"

text \<open>
  The loop of \<open>UnregisterObject\<close>, \<open>Index\<close> running from \<open>Num() - 1\<close> down to \<open>0\<close>; the
  argument \<open>n\<close> is \<open>Index + 1\<close>.
\<close>

fun UnregisterObject_loop ::
  "Engine \<Rightarrow> UObject \<Rightarrow> nat \<Rightarrow> 't UMemoryUsageTracker \<Rightarrow> 't UMemoryUsageTracker option" where
  "UnregisterObject_loop E ObjectToRemove 0 T = Some T"
| "UnregisterObject_loop E ObjectToRemove (Suc Index) T =
     (case At (TrackedObjects T) Index of
        None \<Rightarrow> None
      | Some WeakObj \<Rightarrow>
          if Get E WeakObj = Some ObjectToRemove
          then (case RemoveAtSwap Index (TrackedObjects T) of
                  None \<Rightarrow> None
                | Some Remaining \<Rightarrow> Some (T\<lparr>TrackedObjects := Remaining\<rparr>))
          else UnregisterObject_loop E ObjectToRemove Index T)"

definition UnregisterObject ::
  "Engine \<Rightarrow> UObject option \<Rightarrow> 't UMemoryUsageTracker \<Rightarrow> 't UMemoryUsageTracker option" where
  "UnregisterObject E ObjectToRemove T =
     (case ObjectToRemove of
        None \<Rightarrow> Some (UE_LOG Warning ''[MemoryUsageTracker] UnregisterObject called with null.'' T)
      | Some x \<Rightarrow> UnregisterObject_loop E x (length (TrackedObjects T)) T)"

subsection \<open>CalculateMemoryUsage\<close>

text \<open>
  The property loop with \<open>TotalSize\<close> as the accumulator. \<open>Helper.Num() * ElementSize\<close> is a
  product of two \<open>int32\<close>, widened to the \<open>int64\<close> total afterwards; the string's size is a
  \<open>SIZE_T\<close> added to it.
\<close>

fun CalculateMemoryUsage_loop :: "FProperty list \<Rightarrow> int64 \<Rightarrow> int64" where
  "CalculateMemoryUsage_loop [] TotalSize = TotalSize"
| "CalculateMemoryUsage_loop (FArrayProperty ElementSize Helper # rest) TotalSize =
     CalculateMemoryUsage_loop rest (TotalSize + scast (Num Helper * ElementSize))"
| "CalculateMemoryUsage_loop (FStrProperty AllocatedSize # rest) TotalSize =
     CalculateMemoryUsage_loop rest (TotalSize + AllocatedSize)"
| "CalculateMemoryUsage_loop (FNameProperty # rest) TotalSize =
     CalculateMemoryUsage_loop rest TotalSize"
| "CalculateMemoryUsage_loop (FObjectPropertyBase RefObject # rest) TotalSize =
     CalculateMemoryUsage_loop rest TotalSize"
| "CalculateMemoryUsage_loop (FOtherProperty ElementSize # rest) TotalSize =
     CalculateMemoryUsage_loop rest (TotalSize + scast ElementSize)"

definition CalculateMemoryUsage :: "Engine \<Rightarrow> UObject option \<Rightarrow> int64" where
  "CalculateMemoryUsage E Object =
     (case Object of
        None \<Rightarrow> 0
      | Some x \<Rightarrow> CalculateMemoryUsage_loop (Properties (Heap E) x) (0 + sizeof_UObject E))"

subsection \<open>CountReferencedObjects\<close>

text \<open>
  The function with its two loops, over the properties and over the elements of an array
  of object pointers; \<open>Visited\<close> is passed by reference in the source, so each function
  returns it with the count. The measure that bounds the recursion needs the number of
  array elements of a property.
\<close>

fun elements_size :: "FProperty \<Rightarrow> nat" where
  "elements_size (FArrayProperty sz (ObjectElements es)) = length es"
| "elements_size p = 0"

function (sequential, domintros)
  CountReferencedObjects :: "heap \<Rightarrow> UObject option \<Rightarrow> UObject set \<Rightarrow> int32 \<times> UObject set"
and CRO_properties ::
  "heap \<Rightarrow> FProperty list \<Rightarrow> int32 \<Rightarrow> UObject set \<Rightarrow> int32 \<times> UObject set"
and CRO_elements ::
  "heap \<Rightarrow> UObject option list \<Rightarrow> int32 \<Rightarrow> UObject set \<Rightarrow> int32 \<times> UObject set"
where
  "CountReferencedObjects h None Visited = (0, Visited)"
| "CountReferencedObjects h (Some x) Visited =
     (if x \<in> Visited then (0, Visited)
      else CRO_properties h (Properties h x) 1 (insert x Visited))"
| "CRO_properties h [] Count Visited = (Count, Visited)"
| "CRO_properties h (FObjectPropertyBase None # rest) Count Visited =
     CRO_properties h rest Count Visited"
| "CRO_properties h (FObjectPropertyBase (Some y) # rest) Count Visited =
     (if y \<notin> Visited
      then (case CountReferencedObjects h (Some y) Visited of
              (n, Visited') \<Rightarrow> CRO_properties h rest (Count + n) Visited')
      else CRO_properties h rest Count Visited)"
| "CRO_properties h (FArrayProperty sz (ObjectElements es) # rest) Count Visited =
     (case CRO_elements h es Count Visited of
        (Count', Visited') \<Rightarrow> CRO_properties h rest Count' Visited')"
| "CRO_properties h (p # rest) Count Visited =
     CRO_properties h rest Count Visited"
| "CRO_elements h [] Count Visited = (Count, Visited)"
| "CRO_elements h (None # es) Count Visited =
     CRO_elements h es Count Visited"
| "CRO_elements h (Some y # es) Count Visited =
     (if y \<notin> Visited
      then (case CountReferencedObjects h (Some y) Visited of
              (n, Visited') \<Rightarrow> CRO_elements h es (Count + n) Visited')
      else CRO_elements h es Count Visited)"
  by pat_completeness auto

lemma CRO_dom_mono:
  "CountReferencedObjects_CRO_properties_CRO_elements_dom (Inl (h, obj, V)) \<Longrightarrow>
     V \<subseteq> snd (CountReferencedObjects h obj V)"
  "CountReferencedObjects_CRO_properties_CRO_elements_dom (Inr (Inl (h, ps, c, V))) \<Longrightarrow>
     V \<subseteq> snd (CRO_properties h ps c V)"
  "CountReferencedObjects_CRO_properties_CRO_elements_dom (Inr (Inr (h, es, c, V))) \<Longrightarrow>
     V \<subseteq> snd (CRO_elements h es c V)"
  by (induction h obj V and h ps c V and h es c V
      rule: CountReferencedObjects_CRO_properties_CRO_elements.pinduct)
    (auto simp: CountReferencedObjects.psimps CRO_properties.psimps CRO_elements.psimps
      split: prod.splits, blast+)

definition CRO_measure ::
  "heap \<times> UObject option \<times> UObject set + heap \<times> FProperty list \<times> int32 \<times> UObject set
     + heap \<times> UObject option list \<times> int32 \<times> UObject set \<Rightarrow> nat \<times> nat" where
  "CRO_measure a =
     (case a of
        Inl (h, obj, V) \<Rightarrow> (card (fst ` set h - V), 1)
      | Inr (Inl (h, ps, c, V)) \<Rightarrow> (card (fst ` set h - V), 2 * (\<Sum>p\<leftarrow>ps. Suc (elements_size p)))
      | Inr (Inr (h, es, c, V)) \<Rightarrow> (card (fst ` set h - V), 2 * length es))"

lemma Properties_outside: "x \<notin> fst ` set h \<Longrightarrow> Properties h x = []"
  by (simp add: Properties_def map_of_eq_None_iff [THEN iffD2])

lemma card_heap_mono: "V \<subseteq> V' \<Longrightarrow> card (fst ` set h - V') \<le> card (fst ` set h - V)"
  by (rule card_mono) auto

lemma card_heap_insert:
  "x \<in> fst ` set h \<Longrightarrow> x \<notin> V \<Longrightarrow> card (fst ` set h - insert x V) < card (fst ` set h - V)"
  by (rule psubset_card_mono) auto

termination CountReferencedObjects
proof (relation "inv_image (less_than <*lex*> less_than) CRO_measure", goal_cases)
  case 1
  show ?case by (intro wf_inv_image wf_lex_prod wf_less_than)
next
  case (2 h x Visited)
  show ?case
  proof (cases "x \<in> fst ` set h")
    case True
    with 2 show ?thesis
      using card_heap_insert [of x h Visited] by (auto simp: CRO_measure_def)
  next
    case False
    then have "fst ` set h - insert x Visited = fst ` set h - Visited" by auto
    with False show ?thesis
      by (simp add: CRO_measure_def Properties_outside)
  qed
next
  case (5 h y rest Count Visited x ya)
  then have "Visited \<subseteq> ya"
    using CRO_dom_mono(1) [of h "Some y" Visited] by (metis snd_conv)
  then show ?case
    using card_heap_mono [of Visited ya h] by (auto simp: CRO_measure_def)
next
  case (8 h sz es rest Count Visited x y)
  then have "Visited \<subseteq> y"
    using CRO_dom_mono(3) [of h es Count Visited] by (metis snd_conv)
  then show ?case
    using card_heap_mono [of Visited y h] by (auto simp: CRO_measure_def)
next
  case (15 h y es Count Visited x ya)
  then have "Visited \<subseteq> ya"
    using CRO_dom_mono(1) [of h "Some y" Visited] by (metis snd_conv)
  then show ?case
    using card_heap_mono [of Visited ya h] by (auto simp: CRO_measure_def)
qed (auto simp: CRO_measure_def)


subsection \<open>TickComponent\<close>

text \<open>The record the sampling loop builds for a live object, with a fresh visited set.\<close>

definition MeasureObject :: "Engine \<Rightarrow> UObject \<Rightarrow> FMemoryUsageInfo" where
  "MeasureObject E Obj =
     \<lparr>ObjectName = GetName E Obj, TrackedObject = Some Obj,
      MemoryBytes = CalculateMemoryUsage E (Some Obj),
      NumReferencedObjects = fst (CountReferencedObjects (Heap E) (Some Obj) {})\<rparr>"

definition RemoveTracked ::
  "nat \<Rightarrow> 't UMemoryUsageTracker \<Rightarrow> 't UMemoryUsageTracker option" where
  "RemoveTracked Index T =
     (case RemoveAtSwap Index (TrackedObjects T) of
        None \<Rightarrow> None
      | Some Remaining \<Rightarrow> Some (T\<lparr>TrackedObjects := Remaining\<rparr>))"

text \<open>The body of the sampling loop at \<open>Index\<close>.\<close>

definition SamplingStep ::
  "Engine \<Rightarrow> nat \<Rightarrow> 't UMemoryUsageTracker \<Rightarrow> 't UMemoryUsageTracker option" where
  "SamplingStep E Index T =
     (case At (TrackedObjects T) Index of
        None \<Rightarrow> None
      | Some WeakObj \<Rightarrow>
          if IsValid E WeakObj then
            (case Get E WeakObj of
               Some Obj \<Rightarrow>
                 if \<not> IsPendingKill E Obj
                 then Some (T\<lparr>CachedMemoryInfo := CachedMemoryInfo T @ [MeasureObject E Obj]\<rparr>)
                 else RemoveTracked Index T
             | None \<Rightarrow> RemoveTracked Index T)
          else RemoveTracked Index T)"

text \<open>The loop, \<open>Index\<close> running from \<open>Num() - 1\<close> down to \<open>0\<close>; the argument is \<open>Index + 1\<close>.\<close>

fun SamplingLoop ::
  "Engine \<Rightarrow> nat \<Rightarrow> 't UMemoryUsageTracker \<Rightarrow> 't UMemoryUsageTracker option" where
  "SamplingLoop E 0 T = Some T"
| "SamplingLoop E (Suc Index) T =
     (case SamplingStep E Index T of
        None \<Rightarrow> None
      | Some T' \<Rightarrow> SamplingLoop E Index T')"

text \<open>
  One sampling pass: what \<open>TickComponent\<close> does once the accumulator has reached the
  interval. \<open>Super::TickComponent\<close> touches none of the component's members and is left out.
\<close>

definition SamplingPass ::
  "Engine \<Rightarrow> ('t::zero) UMemoryUsageTracker \<Rightarrow> 't UMemoryUsageTracker option" where
  "SamplingPass E T =
     SamplingLoop E (length (TrackedObjects T)) (ClearCachedInfo (T\<lparr>TimeAccumulator := 0\<rparr>))"

definition TickComponent ::
  "Engine \<Rightarrow> 't \<Rightarrow> ('t::{zero,plus,ord}) UMemoryUsageTracker \<Rightarrow> 't UMemoryUsageTracker option" where
  "TickComponent E DeltaTime T =
     (if SampleInterval T \<le> 0 \<or> length (TrackedObjects T) = 0 then Some T
      else
        let T' = T\<lparr>TimeAccumulator := TimeAccumulator T + DeltaTime\<rparr>
        in if TimeAccumulator T' \<ge> SampleInterval T' then SamplingPass E T' else Some T')"

text \<open>\<open>DumpMemoryUsageToLog\<close>; the host renders a record (\<open>%s\<close>, \<open>%.2f\<close>, \<open>%d\<close>).\<close>

definition DumpMemoryUsageToLog ::
  "(FMemoryUsageInfo \<Rightarrow> string) \<Rightarrow> 't UMemoryUsageTracker \<Rightarrow> 't UMemoryUsageTracker" where
  "DumpMemoryUsageToLog Printf T =
     UE_LOG Log ''---- Memory Usage Tracker Dump End ----''
       (fold (\<lambda>Info. UE_LOG Log (Printf Info)) (CachedMemoryInfo T)
         (UE_LOG Log ''---- Memory Usage Tracker Dump Start ----'' T))"

section \<open>The specification's notions\<close>

subsection \<open>Reachability through reference fields\<close>

text \<open>
  The objects a property refers to: the target of a single reference, and the non-null
  elements of an array of references. An object is reachable from a root when a chain of
  such references leads from the root to it; the root is reachable from itself.
\<close>

fun PropertyReferences :: "FProperty \<Rightarrow> UObject set" where
  "PropertyReferences (FObjectPropertyBase r) = set_option r"
| "PropertyReferences (FArrayProperty sz (ObjectElements es)) = (\<Union>e \<in> set es. set_option e)"
| "PropertyReferences p = {}"

definition References :: "heap \<Rightarrow> UObject \<Rightarrow> UObject set" where
  "References h x = (\<Union>p \<in> set (Properties h x). PropertyReferences p)"

definition Reachable :: "heap \<Rightarrow> UObject \<Rightarrow> UObject set" where
  "Reachable h x = {(a, b). b \<in> References h a}\<^sup>* `` {x}"

text \<open>
  For the proof: the visited objects with a reference that leads outside the visited set,
  and what holds of a walk that started with \<open>V\<close> and count \<open>c\<close>, had to cover the targets
  \<open>T\<close>, and returned \<open>r\<close>.
\<close>

definition pending :: "heap \<Rightarrow> UObject set \<Rightarrow> UObject set" where
  "pending h V = {x \<in> V. \<not> References h x \<subseteq> V}"

definition walked ::
  "heap \<Rightarrow> UObject set \<Rightarrow> UObject set \<Rightarrow> int32 \<Rightarrow> int32 \<times> UObject set \<Rightarrow> bool" where
  "walked h T V c r =
     (V \<subseteq> snd r \<and> finite (snd r - V) \<and> fst r = c + of_nat (card (snd r - V)) \<and>
      snd r - V \<subseteq> {(a, b). b \<in> References h a}\<^sup>* `` T \<and>
      pending h (snd r) \<subseteq> pending h V \<and> T \<subseteq> snd r)"

subsection \<open>The size of a field\<close>

text \<open>
  What a field adds to the estimate in the code: an array its element count times the
  element size, whatever the elements are; a string its allocated size; a name and a single
  object reference nothing; any other field its width.
\<close>

fun FieldBytes :: "FProperty \<Rightarrow> int64" where
  "FieldBytes (FArrayProperty ElementSize Helper) = scast (Num Helper * ElementSize)"
| "FieldBytes (FStrProperty AllocatedSize) = AllocatedSize"
| "FieldBytes FNameProperty = 0"
| "FieldBytes (FObjectPropertyBase RefObject) = 0"
| "FieldBytes (FOtherProperty ElementSize) = scast ElementSize"

text \<open>
  The same as the specification words it, where a sequence of references adds nothing
  either.
\<close>

fun FieldBytes_as_specified :: "FProperty \<Rightarrow> int64" where
  "FieldBytes_as_specified (FArrayProperty ElementSize (ObjectElements es)) = 0"
| "FieldBytes_as_specified (FArrayProperty ElementSize (OtherElements n)) =
     scast (Num (OtherElements n) * ElementSize)"
| "FieldBytes_as_specified (FStrProperty AllocatedSize) = AllocatedSize"
| "FieldBytes_as_specified FNameProperty = 0"
| "FieldBytes_as_specified (FObjectPropertyBase RefObject) = 0"
| "FieldBytes_as_specified (FOtherProperty ElementSize) = scast ElementSize"

definition MemoryUsage_as_specified :: "Engine \<Rightarrow> UObject option \<Rightarrow> int64" where
  "MemoryUsage_as_specified E Object =
     (case Object of
        None \<Rightarrow> 0
      | Some x \<Rightarrow> sizeof_UObject E + sum_list (map FieldBytes_as_specified (Properties (Heap E) x)))"

subsection \<open>The advance of the sampler as the specification words it\<close>

text \<open>
  Every advance adds \<open>deltaTime\<close> to the accumulator; when the accumulator reaches the
  interval it is reset and one sampling pass runs.
\<close>

definition Advance_as_specified ::
  "Engine \<Rightarrow> 't \<Rightarrow> ('t::{zero,plus,ord}) UMemoryUsageTracker \<Rightarrow> 't UMemoryUsageTracker option" where
  "Advance_as_specified E DeltaTime T =
     (let T' = T\<lparr>TimeAccumulator := TimeAccumulator T + DeltaTime\<rparr>
      in if TimeAccumulator T' \<ge> SampleInterval T' then SamplingPass E T' else Some T')"

subsection \<open>The tracked set\<close>

text \<open>
  The live referents of the tracked handles, in order, and the invariant that no two
  handles resolve to the same live object.
\<close>

definition LiveReferents :: "Engine \<Rightarrow> TWeakObjectPtr list \<Rightarrow> UObject list" where
  "LiveReferents E ws = List.map_filter (Get E) ws"

definition NoDuplicateReferents :: "Engine \<Rightarrow> 't UMemoryUsageTracker \<Rightarrow> bool" where
  "NoDuplicateReferents E T = distinct (LiveReferents E (TrackedObjects T))"

subsection \<open>What the specification calls a case-insensitive substring\<close>

text \<open>
  Two strings are equal ignoring case when they have the same length and agree position by
  position after folding; \<open>term\<close> is a case-insensitive substring of \<open>s\<close> when some
  contiguous segment of \<open>s\<close> is equal to it ignoring case.
\<close>

definition EqualIgnoringCase :: "string \<Rightarrow> string \<Rightarrow> bool" where
  "EqualIgnoringCase a b = list_all2 (\<lambda>x y. ToLowerChar x = ToLowerChar y) a b"

definition CaseInsensitiveSubstring :: "string \<Rightarrow> string \<Rightarrow> bool" where
  "CaseInsensitiveSubstring term s = (\<exists>p m q. s = p @ m @ q \<and> EqualIgnoringCase m term)"

subsection \<open>Examples\<close>

text \<open>
  An engine with three live objects, 1, 3 and 4, and an object 2 that has been destroyed;
  a tracker that tracks 1, 2 and 3 and is one second short of its interval; and a tracker
  that tracks nothing.
\<close>

definition ExampleEngine :: Engine where
  "ExampleEngine =
     \<lparr>Heap = [(1, [FObjectPropertyBase (Some 3), FOtherProperty 4]),
              (3, [FArrayProperty 8 (ObjectElements [Some 1, Some 4]), FNameProperty]),
              (4, [FStrProperty 32])],
      ObjectState = (\<lambda>x. if x = 2 then Destroyed else Live),
      GetName = (\<lambda>x. if x = 1 then ''Hero'' else if x = 2 then ''Crate'' else ''Squad''),
      sizeof_UObject = 40\<rparr>"

definition IdleTracker :: "int UMemoryUsageTracker" where
  "IdleTracker =
     \<lparr>ComponentTickEnabled = True, LogTemp = [], TimeAccumulator = 0, SampleInterval = 5,
      TrackedObjects = [], CachedMemoryInfo = []\<rparr>"

definition ExampleTracker :: "int UMemoryUsageTracker" where
  "ExampleTracker =
     \<lparr>ComponentTickEnabled = True, LogTemp = [], TimeAccumulator = 4, SampleInterval = 5,
      TrackedObjects = [Some 1, Some 2, Some 3], CachedMemoryInfo = []\<rparr>"

text \<open>The example engine later, when object 3 has been marked pending kill.\<close>

definition LaterEngine :: Engine where
  "LaterEngine = ExampleEngine\<lparr>ObjectState := (\<lambda>x. if x = 2 then Destroyed
                                               else if x = 3 then PendingKill else Live)\<rparr>"

text \<open>A new logger after one event, Spawn, has been logged outside the editor.\<close>

definition SpawnLogged :: "(nat, nat) UGameplayEventLogger" where
  "SpawnLogged = LogEvent False None 1 (\<lambda>e. []) ''Spawn'' ''a'' NewGameplayEventLogger"

text \<open>A file system for examples: the files written so far; saving to the empty path fails.\<close>

definition MemorySave ::
  "string \<Rightarrow> string \<Rightarrow> (string \<times> string) list \<Rightarrow> bool \<times> (string \<times> string) list" where
  "MemorySave content path fs = (path \<noteq> [], if path \<noteq> [] then (path, content) # fs else fs)"

section \<open>Properties of the event logger\<close>

text \<open>
  C8. \<open>ExportLogToCSV\<close> on an empty log returns false and leaves the file system as it
  was, whatever the host's write function would have done; on a non-empty log it performs
  exactly one write of the rendered content and returns that write's result, so it returns
  true exactly when the log is non-empty and the write succeeds.
\<close>

theorem ExportLogToCSV_result:
  fixes Save :: "string \<Rightarrow> string \<Rightarrow> 'fs \<Rightarrow> bool \<times> 'fs"
  shows
  "(EventLog lg = [] \<longrightarrow>
      fst (ExportLogToCSV F Save P T path fs lg) = False \<and>
      fst (snd (ExportLogToCSV F Save P T path fs lg)) = fs) \<and>
   (EventLog lg \<noteq> [] \<longrightarrow>
      (fst (ExportLogToCSV F Save P T path fs lg),
       fst (snd (ExportLogToCSV F Save P T path fs lg))) =
        Save (CSVContent_loop F P T (EventLog lg)
               (''GameTime,EventName,Context,UTC_Timestamp'' @ [CHR 0x0A])) path fs) \<and>
   (fst (ExportLogToCSV F Save P T path fs lg) \<longleftrightarrow>
      EventLog lg \<noteq> [] \<and>
      fst (Save (CSVContent_loop F P T (EventLog lg)
               (''GameTime,EventName,Context,UTC_Timestamp'' @ [CHR 0x0A])) path fs))"
  by (auto simp: ExportLogToCSV_def Let_def split: prod.splits)

theorem ExportLogToCSV_result_witness:
  "fst (ExportLogToCSV Stristr_on_empty MemorySave (\<lambda>t::nat. ''1.500'') (\<lambda>d::nat. ''2025.01.01'') ''out.csv'' []
          \<lparr>ComponentTickEnabled = False, LogTemp = [], EventLog = []\<rparr>) = False \<and>
   fst (snd (ExportLogToCSV Stristr_on_empty MemorySave (\<lambda>t::nat. ''1.500'') (\<lambda>d::nat. ''2025.01.01'') ''out.csv'' []
          \<lparr>ComponentTickEnabled = False, LogTemp = [], EventLog = []\<rparr>)) = [] \<and>
   fst (ExportLogToCSV Stristr_on_empty MemorySave (\<lambda>t::nat. ''1.500'') (\<lambda>d::nat. ''2025.01.01'') ''out.csv'' []
          \<lparr>ComponentTickEnabled = False, LogTemp = [], EventLog = [\<lparr>EventName = ''Spawn'', Context = ''a,b'', GameTime = 1, RealTimestamp = 2\<rparr>]\<rparr>) = True \<and>
   fst (snd (ExportLogToCSV Stristr_on_empty MemorySave (\<lambda>t::nat. ''1.500'') (\<lambda>d::nat. ''2025.01.01'') ''out.csv'' []
          \<lparr>ComponentTickEnabled = False, LogTemp = [], EventLog = [\<lparr>EventName = ''Spawn'', Context = ''a,b'', GameTime = 1, RealTimestamp = 2\<rparr>]\<rparr>))
     = [(''out.csv'', ''GameTime,EventName,Context,UTC_Timestamp'' @ [CHR 0x0A] @
           ''1.500,Spawn,'' @ [CHR 0x22] @ ''a,b'' @ [CHR 0x22] @ '',2025.01.01'' @ [CHR 0x0A])] \<and>
   fst (ExportLogToCSV Stristr_on_empty MemorySave (\<lambda>t::nat. ''1.500'') (\<lambda>d::nat. ''2025.01.01'') [] []
          \<lparr>ComponentTickEnabled = False, LogTemp = [], EventLog = [\<lparr>EventName = ''Spawn'', Context = ''a,b'', GameTime = 1, RealTimestamp = 2\<rparr>]\<rparr>) = False"
proof -
  have s1: "SanitizeForCSV Stristr_on_empty ''Spawn'' = ''Spawn''" by code_simp
  have s2: "SanitizeForCSV Stristr_on_empty ''a,b'' = [CHR 0x22] @ ''a,b'' @ [CHR 0x22]" by code_simp
  show ?thesis
    using ExportLogToCSV_result [of "\<lparr>ComponentTickEnabled = False, LogTemp = [], EventLog = []\<rparr>" Stristr_on_empty MemorySave "\<lambda>t::nat. ''1.500''" "\<lambda>d::nat. ''2025.01.01''" "''out.csv''" "[]"]
        ExportLogToCSV_result [of "\<lparr>ComponentTickEnabled = False, LogTemp = [], EventLog = [\<lparr>EventName = ''Spawn'', Context = ''a,b'', GameTime = 1, RealTimestamp = 2\<rparr>]\<rparr>" Stristr_on_empty MemorySave "\<lambda>t::nat. ''1.500''" "\<lambda>d::nat. ''2025.01.01''" "''out.csv''" "[]"]
        ExportLogToCSV_result [of "\<lparr>ComponentTickEnabled = False, LogTemp = [], EventLog = [\<lparr>EventName = ''Spawn'', Context = ''a,b'', GameTime = 1, RealTimestamp = 2\<rparr>]\<rparr>" Stristr_on_empty MemorySave "\<lambda>t::nat. ''1.500''" "\<lambda>d::nat. ''2025.01.01''" "[]" "[]"]
    by (simp add: MemorySave_def CSVRow_def s1 s2)
qed

lemma ToUpper_ToLower: "ToUpperChar (ToLowerChar c) = ToUpperChar c"
  by (auto simp: ToLowerChar_def ToUpperChar_def)

lemma ToLower_ToUpper: "ToLowerChar (ToUpperChar c) = ToLowerChar c"
  by (auto simp: ToLowerChar_def ToUpperChar_def)

lemma upper_eq_iff_lower_eq:
  "ToUpperChar a = ToUpperChar b \<longleftrightarrow> ToLowerChar a = ToLowerChar b"
  by (metis ToUpper_ToLower ToLower_ToUpper)

lemma StartsWithIgnoreCase_iff:
  "StartsWithIgnoreCase sub s \<longleftrightarrow> (\<exists>m q. s = m @ q \<and> EqualIgnoringCase m sub)"
proof (induction sub s rule: StartsWithIgnoreCase.induct)
  case (1 s)
  then show ?case by (simp add: EqualIgnoringCase_def)
next
  case (2 f fs)
  then show ?case by (simp add: EqualIgnoringCase_def)
next
  case (3 f fs c cs)
  show ?case
  proof
    assume "StartsWithIgnoreCase (f # fs) (c # cs)"
    then have fc: "ToLowerChar c = ToLowerChar f" and "StartsWithIgnoreCase fs cs"
      by (auto simp: upper_eq_iff_lower_eq)
    with 3 obtain m q where "cs = m @ q" "EqualIgnoringCase m fs" by blast
    with fc have "c # cs = (c # m) @ q \<and> EqualIgnoringCase (c # m) (f # fs)"
      by (simp add: EqualIgnoringCase_def)
    then show "\<exists>m q. c # cs = m @ q \<and> EqualIgnoringCase m (f # fs)" by blast
  next
    assume "\<exists>m q. c # cs = m @ q \<and> EqualIgnoringCase m (f # fs)"
    then obtain m q where mq: "c # cs = m @ q" "EqualIgnoringCase m (f # fs)" by blast
    then obtain m' where m: "m = c # m'" "ToLowerChar c = ToLowerChar f" "EqualIgnoringCase m' fs" "cs = m' @ q"
      by (cases m) (auto simp: EqualIgnoringCase_def)
    with 3 show "StartsWithIgnoreCase (f # fs) (c # cs)"
      by (auto simp: upper_eq_iff_lower_eq)
  qed
qed

lemma FindIgnoreCase_iff:
  "FindIgnoreCase s sub \<longleftrightarrow> (\<exists>p m q. s = p @ m @ q \<and> EqualIgnoringCase m sub)"
proof (induction s)
  case Nil
  then show ?case by (auto simp: StartsWithIgnoreCase_iff)
next
  case (Cons c cs)
  show ?case
  proof
    assume "FindIgnoreCase (c # cs) sub"
    then consider "StartsWithIgnoreCase sub (c # cs)" | "FindIgnoreCase cs sub" by auto
    then show "\<exists>p m q. c # cs = p @ m @ q \<and> EqualIgnoringCase m sub"
    proof cases
      case 1
      then obtain m q where "c # cs = [] @ m @ q" "EqualIgnoringCase m sub"
        by (auto simp: StartsWithIgnoreCase_iff)
      then show ?thesis by blast
    next
      case 2
      with Cons obtain p m q where "cs = p @ m @ q" "EqualIgnoringCase m sub" by blast
      then have "c # cs = (c # p) @ m @ q \<and> EqualIgnoringCase m sub" by simp
      then show ?thesis by blast
    qed
  next
    assume "\<exists>p m q. c # cs = p @ m @ q \<and> EqualIgnoringCase m sub"
    then obtain p m q where pmq: "c # cs = p @ m @ q" "EqualIgnoringCase m sub" by blast
    show "FindIgnoreCase (c # cs) sub"
    proof (cases p)
      case Nil
      with pmq have "StartsWithIgnoreCase sub (c # cs)"
        by (auto simp: StartsWithIgnoreCase_iff)
      then show ?thesis by simp
    next
      case (Cons a p')
      with pmq have "cs = p' @ m @ q" by simp
      with pmq Cons.IH have "FindIgnoreCase cs sub" by blast
      then show ?thesis by simp
    qed
  qed
qed

lemma EqualIgnoringCase_ToLower:
  "EqualIgnoringCase (ToLower m) (ToLower t) \<longleftrightarrow> EqualIgnoringCase m t"
proof -
  have "ToLowerChar (ToLowerChar c) = ToLowerChar c" for c
    by (auto simp: ToLowerChar_def)
  then show ?thesis
    by (simp add: EqualIgnoringCase_def ToLower_def list_all2_map1 list_all2_map2)
qed

lemma FindIgnoreCase_ToLower:
  "FindIgnoreCase (ToLower s) (ToLower t) \<longleftrightarrow> CaseInsensitiveSubstring t s"
proof
  assume "FindIgnoreCase (ToLower s) (ToLower t)"
  then obtain p' m' q' where split: "map ToLowerChar s = p' @ m' @ q'"
    and eq: "EqualIgnoringCase m' (ToLower t)"
    by (auto simp: FindIgnoreCase_iff ToLower_def)
  from split obtain p r where s: "s = p @ r" "map ToLowerChar r = m' @ q'"
    by (metis map_eq_append_conv)
  then obtain m q where r: "r = m @ q" "m' = map ToLowerChar m"
    by (metis map_eq_append_conv)
  with eq have "EqualIgnoringCase m t"
    by (simp add: EqualIgnoringCase_ToLower [unfolded ToLower_def] ToLower_def)
  with s r show "CaseInsensitiveSubstring t s"
    unfolding CaseInsensitiveSubstring_def by blast
next
  assume "CaseInsensitiveSubstring t s"
  then obtain p m q where s: "s = p @ m @ q" and eq: "EqualIgnoringCase m t"
    unfolding CaseInsensitiveSubstring_def by blast
  from s have "ToLower s = ToLower p @ ToLower m @ ToLower q"
    by (simp add: ToLower_def)
  moreover from eq have "EqualIgnoringCase (ToLower m) (ToLower t)"
    by (simp add: EqualIgnoringCase_ToLower)
  ultimately show "FindIgnoreCase (ToLower s) (ToLower t)"
    unfolding FindIgnoreCase_iff by blast
qed

lemma Contains_ToLower:
  "Contains F (ToLower s) (ToLower t) \<longleftrightarrow>
     (if t = [] then F (ToLower s) else CaseInsensitiveSubstring t s)"
  by (simp add: Contains_def FindIgnoreCase_ToLower) (simp add: ToLower_def)

lemma SearchEventsByName_loop_filter:
  "SearchEventsByName_loop F t es acc =
     acc @ filter (\<lambda>e. Contains F (ToLower (EventName e)) t) es"
  by (induction es arbitrary: acc) auto

lemma SearchEventsByContext_loop_filter:
  "SearchEventsByContext_loop F t es acc =
     acc @ filter (\<lambda>e. Contains F (ToLower (Context e)) t) es"
  by (induction es arbitrary: acc) auto

text \<open>
  C3 (as the code has it). For a search term of at least one character,
  \<open>SearchEventsByName\<close> (\<open>SearchEventsByContext\<close>) returns exactly the entries whose name
  (context) has the term as a case-insensitive substring, in log order; and after logging
  Spawn, Spawn, Death into an empty log, a search for any spelling of "spa" returns the two
  Spawn entries in the order they were logged. For the empty term the code has no case of
  its own: it returns the entries on whose lowered name (context) the engine's \<open>Contains\<close>
  reports a pattern of length zero found, which is every entry with an engine that finds
  the empty pattern everywhere and no entry with one that finds it nowhere.
\<close>

theorem SearchEvents_case_insensitive:
  "(t \<noteq> [] \<longrightarrow>
      SearchEventsByName F t lg =
        filter (\<lambda>e. CaseInsensitiveSubstring t (EventName e)) (EventLog lg) \<and>
      SearchEventsByContext F t lg =
        filter (\<lambda>e. CaseInsensitiveSubstring t (Context e)) (EventLog lg)) \<and>
   SearchEventsByName F [] lg = filter (\<lambda>e. F (ToLower (EventName e))) (EventLog lg) \<and>
   SearchEventsByContext F [] lg = filter (\<lambda>e. F (ToLower (Context e))) (EventLog lg) \<and>
   SearchEventsByName Strnistr_on_empty [] lg = EventLog lg \<and>
   SearchEventsByContext Strnistr_on_empty [] lg = EventLog lg \<and>
   SearchEventsByName Stristr_on_empty [] lg = [] \<and>
   SearchEventsByContext Stristr_on_empty [] lg = [] \<and>
   (ToLower t = ''spa'' \<longrightarrow>
      SearchEventsByName F t
        (LogEvent E3 W3 U3 P3 ''Death'' c3
          (LogEvent E2 W2 U2 P2 ''Spawn'' c2
            (LogEvent E1 W1 U1 P1 ''Spawn'' c1 (ClearLog lg)))) =
        [\<lparr>EventName = ''Spawn'', Context = c1,
           GameTime = (case W1 of None \<Rightarrow> 0 | Some w \<Rightarrow> w), RealTimestamp = U1\<rparr>,
         \<lparr>EventName = ''Spawn'', Context = c2,
           GameTime = (case W2 of None \<Rightarrow> 0 | Some w \<Rightarrow> w), RealTimestamp = U2\<rparr>])"
proof -
  have name: "SearchEventsByName F t lg =
      filter (\<lambda>e. if t = [] then F (ToLower (EventName e))
                  else CaseInsensitiveSubstring t (EventName e)) (EventLog lg)" for F t
    and lg :: "('a, 'b) UGameplayEventLogger"
    by (simp add: SearchEventsByName_def SearchEventsByName_loop_filter Contains_ToLower)
  have ctx: "SearchEventsByContext F t lg =
      filter (\<lambda>e. if t = [] then F (ToLower (Context e))
                  else CaseInsensitiveSubstring t (Context e)) (EventLog lg)" for F t
    and lg :: "('a, 'b) UGameplayEventLogger"
    by (simp add: SearchEventsByContext_def SearchEventsByContext_loop_filter Contains_ToLower)
  have spawn: "Contains F (ToLower ''Spawn'') ''spa''"
    unfolding Contains_def by (simp, code_simp)
  have death: "\<not> Contains F (ToLower ''Death'') ''spa''"
    unfolding Contains_def by (simp, code_simp)
  have example: "SearchEventsByName F t
        (LogEvent E3 W3 U3 P3 ''Death'' c3
          (LogEvent E2 W2 U2 P2 ''Spawn'' c2
            (LogEvent E1 W1 U1 P1 ''Spawn'' c1 (ClearLog lg)))) =
        [\<lparr>EventName = ''Spawn'', Context = c1,
           GameTime = (case W1 of None \<Rightarrow> 0 | Some w \<Rightarrow> w), RealTimestamp = U1\<rparr>,
         \<lparr>EventName = ''Spawn'', Context = c2,
           GameTime = (case W2 of None \<Rightarrow> 0 | Some w \<Rightarrow> w), RealTimestamp = U2\<rparr>]"
    if "ToLower t = ''spa''"
    using that spawn death
    by (simp add: SearchEventsByName_def LogEvent_def ClearLog_def UE_LOG_def Let_def)
  show ?thesis
    using example by (simp add: name ctx Strnistr_on_empty_def Stristr_on_empty_def)
qed

theorem SearchEvents_case_insensitive_witness:
  "''sPA'' \<noteq> [] \<and> ToLower ''sPA'' = ''spa'' \<and>
   SearchEventsByName Stristr_on_empty ''sPA''
     (LogEvent False None (3::nat) (\<lambda>e. []) ''Death'' ''fell''
       (LogEvent False (Some 7) 2 (\<lambda>e. []) ''Spawn'' ''b''
         (LogEvent False (Some (5::nat)) 1 (\<lambda>e. []) ''Spawn'' ''a''
           (ClearLog \<lparr>ComponentTickEnabled = False, LogTemp = [], EventLog = []\<rparr>)))) =
     [\<lparr>EventName = ''Spawn'', Context = ''a'', GameTime = 5, RealTimestamp = 1\<rparr>,
      \<lparr>EventName = ''Spawn'', Context = ''b'', GameTime = 7, RealTimestamp = 2\<rparr>]"
proof -
  have h: "''sPA'' \<noteq> []" "ToLower ''sPA'' = ''spa''" by (simp, code_simp)
  show ?thesis
    using h SearchEvents_case_insensitive [where t = "''sPA''" and F = Stristr_on_empty
        and lg = "\<lparr>ComponentTickEnabled = False, LogTemp = [], EventLog = []\<rparr>"
        and ?E3.0 = False and ?W3.0 = None and ?U3.0 = "3::nat" and ?P3.0 = "\<lambda>e. []"
        and ?c3.0 = "''fell''"
        and ?E2.0 = False and ?W2.0 = "Some (7::nat)" and ?U2.0 = 2 and ?P2.0 = "\<lambda>e. []"
        and ?c2.0 = "''b''"
        and ?E1.0 = False and ?W1.0 = "Some 5" and ?U1.0 = 1 and ?P1.0 = "\<lambda>e. []"
        and ?c1.0 = "''a''"]
    by simp
qed

text \<open>
  C3 as the specification words it, with the empty term matching everything, fails with an
  engine whose \<open>Contains\<close> finds the empty pattern nowhere, as \<open>FCString::Stristr\<close> does: the
  log holds the Spawn entry and the search for the empty term returns nothing.
\<close>

theorem SearchEventsByName_empty_term_counterexample:
  "EventLog SpawnLogged =
     [\<lparr>EventName = ''Spawn'', Context = ''a'', GameTime = 0, RealTimestamp = 1\<rparr>] \<and>
   SearchEventsByName Stristr_on_empty [] SpawnLogged = [] \<and>
   SearchEventsByName Stristr_on_empty [] SpawnLogged \<noteq> EventLog SpawnLogged"
  by (simp add: SearchEventsByName_def Contains_def Stristr_on_empty_def ToLower_def
      SpawnLogged_def LogEvent_def NewGameplayEventLogger_def)

section \<open>Properties of the reference walker\<close>

lemma walked_skip: "T \<subseteq> V \<Longrightarrow> walked h T V c (c, V)"
  by (simp add: walked_def)

lemma walked_seq:
  assumes 1: "walked h T1 V c (c1, V1)" and 2: "walked h T2 V1 c1 (c2, V2)"
  shows "walked h (T1 \<union> T2) V c (c2, V2)"
proof -
  from 1 2 have sub: "V \<subseteq> V1" "V1 \<subseteq> V2" and fin: "finite (V1 - V)" "finite (V2 - V1)"
    by (simp_all add: walked_def)
  have split: "V2 - V = (V2 - V1) \<union> (V1 - V)" and disj: "(V2 - V1) \<inter> (V1 - V) = {}"
    using sub by auto
  have card: "card (V2 - V) = card (V2 - V1) + card (V1 - V)"
    unfolding split using fin disj by (simp add: card_Un_disjoint)
  have count: "c2 = c + of_nat (card (V2 - V))"
    using 1 2 by (simp add: walked_def card)
  have reach: "V2 - V \<subseteq> {(a, b). b \<in> References h a}\<^sup>* `` (T1 \<union> T2)"
    using 1 2 unfolding split by (auto simp: walked_def)
  have fin': "finite (V2 - V)"
    unfolding split using fin by simp
  from 1 2 have pend: "pending h V2 \<subseteq> pending h V" and T: "T1 \<union> T2 \<subseteq> V2"
    using sub by (auto simp: walked_def)
  from sub have "V \<subseteq> V2" by auto
  with fin' count reach pend T show ?thesis
    by (simp add: walked_def)
qed

lemma walked_enter:
  assumes x: "x \<notin> V" and w: "walked h (References h x) (insert x V) 1 (c, V')"
  shows "walked h {x} V 0 (c, V')"
proof -
  from w have sub: "insert x V \<subseteq> V'" and fin: "finite (V' - insert x V)"
    and refs: "References h x \<subseteq> V'"
    by (simp_all add: walked_def)
  have split: "V' - V = insert x (V' - insert x V)"
    using sub x by auto
  have card: "card (V' - V) = Suc (card (V' - insert x V))"
    unfolding split using fin by simp
  have count: "c = 0 + of_nat (card (V' - V))"
    using w by (simp add: walked_def card)
  have "{(a, b). b \<in> References h a}\<^sup>* `` References h x
          \<subseteq> {(a, b). b \<in> References h a}\<^sup>* `` {x}"
    by (auto intro: converse_rtrancl_into_rtrancl)
  moreover from w have "V' - insert x V
          \<subseteq> {(a, b). b \<in> References h a}\<^sup>* `` References h x"
    by (simp add: walked_def)
  ultimately have "V' - insert x V \<subseteq> {(a, b). b \<in> References h a}\<^sup>* `` {x}"
    by blast
  then have reach: "V' - V \<subseteq> {(a, b). b \<in> References h a}\<^sup>* `` {x}"
    unfolding split by auto
  have "pending h V' \<subseteq> pending h (insert x V)"
    using w by (simp add: walked_def)
  moreover have "x \<notin> pending h V'"
    using refs by (simp add: pending_def)
  moreover have "pending h (insert x V) \<subseteq> insert x (pending h V)"
    by (auto simp: pending_def)
  ultimately have pend: "pending h V' \<subseteq> pending h V"
    by blast
  have fin': "finite (V' - V)"
    unfolding split using fin by simp
  from sub have "V \<subseteq> V'" "{x} \<subseteq> V'" by auto
  with fin' count reach pend show ?thesis
    by (simp add: walked_def)
qed

lemma walked_mono:
  assumes w: "walked h T V c r" and T: "T \<subseteq> T'" "T' \<subseteq> snd r"
  shows "walked h T' V c r"
proof -
  have "{(a, b). b \<in> References h a}\<^sup>* `` T \<subseteq> {(a, b). b \<in> References h a}\<^sup>* `` T'"
    using T(1) by (rule Image_mono [OF subset_refl])
  moreover from w have "snd r - V \<subseteq> {(a, b). b \<in> References h a}\<^sup>* `` T"
    by (simp add: walked_def)
  ultimately have "snd r - V \<subseteq> {(a, b). b \<in> References h a}\<^sup>* `` T'"
    by blast
  with w T(2) show ?thesis
    by (simp add: walked_def)
qed

lemma CountReferencedObjects_walked:
  "walked h (set_option obj) V 0 (CountReferencedObjects h obj V)"
  "walked h (\<Union>p \<in> set ps. PropertyReferences p) V c (CRO_properties h ps c V)"
  "walked h (\<Union>e \<in> set es. set_option e) V c (CRO_elements h es c V)"
proof (induction h obj V and h ps c V and h es c V
    rule: CountReferencedObjects_CRO_properties_CRO_elements.induct)
  case (1 h Visited)
  show ?case by (simp add: walked_skip)
next
  case (2 h x Visited)
  show ?case
  proof (cases "x \<in> Visited")
    case True
    then show ?thesis by (simp add: walked_skip)
  next
    case False
    with 2 have "walked h (References h x) (insert x Visited) 1
        (CRO_properties h (Properties h x) 1 (insert x Visited))"
      by (simp add: References_def)
    with False show ?thesis
      using walked_enter [of x Visited h] by (cases "CRO_properties h (Properties h x) 1 (insert x Visited)") simp
  qed
next
  case (3 h Count Visited)
  show ?case by (simp add: walked_skip)
next
  case (4 h rest Count Visited)
  then show ?case by simp
next
  case (5 h y rest Count Visited)
  show ?case
  proof (cases "y \<in> Visited")
    case True
    with 5 have w: "walked h (\<Union>p \<in> set rest. PropertyReferences p) Visited Count
        (CRO_properties h rest Count Visited)" by simp
    then have "Visited \<subseteq> snd (CRO_properties h rest Count Visited)"
      "(\<Union>p \<in> set rest. PropertyReferences p) \<subseteq> snd (CRO_properties h rest Count Visited)"
      by (simp_all add: walked_def)
    with True have "insert y (\<Union>p \<in> set rest. PropertyReferences p)
        \<subseteq> snd (CRO_properties h rest Count Visited)" by auto
    from walked_mono [OF w _ this] True show ?thesis by auto
  next
    case False
    obtain n V1 where r: "CountReferencedObjects h (Some y) Visited = (n, V1)"
      by (cases "CountReferencedObjects h (Some y) Visited")
    obtain c2 V2 where r2: "CRO_properties h rest (Count + n) V1 = (c2, V2)"
      by (cases "CRO_properties h rest (Count + n) V1")
    from 5(1) False r have w1: "walked h {y} Visited 0 (n, V1)" by simp
    then have w1': "walked h {y} Visited Count (Count + n, V1)"
      by (simp add: walked_def)
    from 5(2) [OF False r [symmetric]] r2
    have w2: "walked h (\<Union>p \<in> set rest. PropertyReferences p) V1 (Count + n) (c2, V2)" by simp
    from walked_seq [OF w1' w2] False r r2 show ?thesis by simp
  qed
next
  case (6 h sz es rest Count Visited)
  obtain c1 V1 where r: "CRO_elements h es Count Visited = (c1, V1)"
    by (cases "CRO_elements h es Count Visited")
  obtain c2 V2 where r2: "CRO_properties h rest c1 V1 = (c2, V2)"
    by (cases "CRO_properties h rest c1 V1")
  from 6(1) r have w1: "walked h (\<Union>e \<in> set es. set_option e) Visited Count (c1, V1)" by simp
  from 6(2) [OF r [symmetric]] r2
  have w2: "walked h (\<Union>p \<in> set rest. PropertyReferences p) V1 c1 (c2, V2)" by simp
  from walked_seq [OF w1 w2] r r2 show ?case by simp
next
  case (10 h y es Count Visited)
  show ?case
  proof (cases "y \<in> Visited")
    case True
    with 10 have w: "walked h (\<Union>e \<in> set es. set_option e) Visited Count
        (CRO_elements h es Count Visited)" by simp
    then have "Visited \<subseteq> snd (CRO_elements h es Count Visited)"
      "(\<Union>e \<in> set es. set_option e) \<subseteq> snd (CRO_elements h es Count Visited)"
      by (simp_all add: walked_def)
    with True have "insert y (\<Union>e \<in> set es. set_option e)
        \<subseteq> snd (CRO_elements h es Count Visited)" by auto
    from walked_mono [OF w _ this] True show ?thesis by auto
  next
    case False
    obtain n V1 where r: "CountReferencedObjects h (Some y) Visited = (n, V1)"
      by (cases "CountReferencedObjects h (Some y) Visited")
    obtain c2 V2 where r2: "CRO_elements h es (Count + n) V1 = (c2, V2)"
      by (cases "CRO_elements h es (Count + n) V1")
    from 10(1) False r have w1: "walked h {y} Visited 0 (n, V1)" by simp
    then have w1': "walked h {y} Visited Count (Count + n, V1)"
      by (simp add: walked_def)
    from 10(2) [OF False r [symmetric]] r2
    have w2: "walked h (\<Union>e \<in> set es. set_option e) V1 (Count + n) (c2, V2)" by simp
    from walked_seq [OF w1' w2] False r r2 show ?thesis by simp
  qed
qed (simp_all add: walked_skip)

lemma Reachable_closed:
  assumes x: "x \<in> V" and closed: "pending h V = {}"
  shows "Reachable h x \<subseteq> V"
proof
  fix y assume "y \<in> Reachable h x"
  then have "(x, y) \<in> {(a, b). b \<in> References h a}\<^sup>*"
    by (simp add: Reachable_def)
  then show "y \<in> V"
  proof (induction rule: rtrancl_induct)
    case base
    show ?case by (rule x)
  next
    case (step y z)
    with closed show ?case by (auto simp: pending_def)
  qed
qed

lemma CountReferencedObjects_fresh:
  "CountReferencedObjects h (Some x) {} = (of_nat (card (Reachable h x)), Reachable h x)"
proof -
  obtain n V where r: "CountReferencedObjects h (Some x) {} = (n, V)"
    by (cases "CountReferencedObjects h (Some x) {}")
  with CountReferencedObjects_walked(1) [of h "Some x" "{}"]
  have w: "walked h {x} {} 0 (n, V)" by simp
  then have "pending h V \<subseteq> pending h {}" and "x \<in> V"
    by (simp_all add: walked_def)
  then have "Reachable h x \<subseteq> V"
    by (intro Reachable_closed) (auto simp: pending_def)
  moreover from w have "V \<subseteq> Reachable h x"
    by (simp add: walked_def Reachable_def)
  ultimately have "V = Reachable h x" by blast
  with w r show ?thesis by (simp add: walked_def)
qed

lemma finite_Reachable: "finite (Reachable h x)"
  using CountReferencedObjects_walked(1) [of h "Some x" "{}"]
  by (simp add: CountReferencedObjects_fresh walked_def del: CountReferencedObjects.simps)


lemma CRO_all_dom:
  "CountReferencedObjects_CRO_properties_CRO_elements_dom (Inl (h, obj, V))"
  "CountReferencedObjects_CRO_properties_CRO_elements_dom (Inr (Inl (h, ps, c, V)))"
  "CountReferencedObjects_CRO_properties_CRO_elements_dom (Inr (Inr (h, es, c, V)))"
  by (induction h obj V and h ps c V and h es c V
      rule: CountReferencedObjects_CRO_properties_CRO_elements.induct)
    (auto intro: CountReferencedObjects_CRO_properties_CRO_elements.domintros)

lemma CRO_grows:
  assumes "x \<notin> V"
  shows "V \<subset> snd (CountReferencedObjects h (Some x) V)"
    and "finite (snd (CountReferencedObjects h (Some x) V) - V)"
proof -
  from CountReferencedObjects_walked(1) [of h "Some x" V]
  have "V \<subseteq> snd (CountReferencedObjects h (Some x) V)"
    and "x \<in> snd (CountReferencedObjects h (Some x) V)"
    and fin: "finite (snd (CountReferencedObjects h (Some x) V) - V)"
    by (simp_all add: walked_def del: CountReferencedObjects.simps)
  with assms show "V \<subset> snd (CountReferencedObjects h (Some x) V)" by blast
  show "finite (snd (CountReferencedObjects h (Some x) V) - V)" by (rule fin)
qed

lemma Reachable_cong_irreflexive:
  assumes "\<And>a. References h' a - {a} = References h a - {a}"
  shows "Reachable h' x = Reachable h x"
proof -
  have "{(a, b). b \<in> References h' a} - Id = {(a, b). b \<in> References h a} - Id"
    using assms by blast
  then have "({(a, b). b \<in> References h' a} - Id)\<^sup>* = ({(a, b). b \<in> References h a} - Id)\<^sup>*"
    by simp
  then show ?thesis
    by (simp add: Reachable_def rtrancl_r_diff_Id)
qed

lemma Properties_Cons: "Properties ((x, ps) # h) a = (if a = x then ps else Properties h a)"
  by (simp add: Properties_def)

lemma self_field_References:
  assumes "Properties h x = ps @ qs"
  shows "References ((x, ps @ FObjectPropertyBase (Some x) # qs) # h) a - {a} = References h a - {a}"
  using assms by (auto simp: References_def Properties_Cons)

lemma self_element_References:
  assumes "Properties h x = ps @ FArrayProperty sz (ObjectElements (es @ fs)) # qs"
  shows "References ((x, ps @ FArrayProperty sz (ObjectElements (es @ Some x # fs)) # qs) # h) a - {a}
           = References h a - {a}"
  using assms by (auto simp: References_def Properties_Cons)

lemma CRO_irreflexive:
  assumes "\<And>a. References h' a - {a} = References h a - {a}"
  shows "CountReferencedObjects h' (Some r) {} = CountReferencedObjects h (Some r) {}"
  by (simp only: CountReferencedObjects_fresh Reachable_cong_irreflexive [OF assms])


lemma sint_of_nat_small:
  assumes "n < 2 ^ 31"
  shows "sint (word_of_nat n :: 32 word) = int n"
proof -
  have "sint (word_of_int (int n) :: 32 word) = signed_take_bit 31 (int n)"
    using sint_sbintrunc' [of "int n", where ?'a = 32] by simp
  also have "\<dots> = int n"
    using assms by (intro signed_take_bit_int_eq_self) auto
  finally show ?thesis by simp
qed

lemma Reachable_root: "x \<in> Reachable h x"
  by (simp add: Reachable_def)

text \<open>
  C1. Called on a root with a fresh visited set, \<open>CountReferencedObjects\<close> returns the
  number of objects reachable from the root through reference fields and elements of
  reference arrays, the root included, each counted once: the count is the cardinality of
  the reachable set (as an \<open>int32\<close>, and exactly that number below \<open>2^31\<close>), and the
  visited set it leaves is the reachable set. If A refers to B and C, and B to C, the call
  on A returns 3.
\<close>

theorem CountReferencedObjects_counts_reachable_once:
  "CountReferencedObjects h (Some root) {} =
     (of_nat (card (Reachable h root)), Reachable h root) \<and>
   finite (Reachable h root) \<and> root \<in> Reachable h root \<and>
   (card (Reachable h root) < 2 ^ 31 \<longrightarrow>
      sint (fst (CountReferencedObjects h (Some root) {})) = int (card (Reachable h root))) \<and>
   (A \<noteq> B \<and> A \<noteq> C \<and> B \<noteq> C \<longrightarrow>
      fst (CountReferencedObjects
             [(A, [FObjectPropertyBase (Some B), FObjectPropertyBase (Some C)]),
              (B, [FObjectPropertyBase (Some C)]),
              (C, [])] (Some A) {}) = 3)"
proof -
  have small: "sint (fst (CountReferencedObjects h (Some root) {})) = int (card (Reachable h root))"
    if "card (Reachable h root) < 2 ^ 31"
  proof -
    have "sint (word_of_nat (card (Reachable h root)) :: int32) = int (card (Reachable h root))"
      using that by (rule sint_of_nat_small)
    then show ?thesis by (simp only: CountReferencedObjects_fresh fst_conv)
  qed
  have diamond: "fst (CountReferencedObjects
             [(A, [FObjectPropertyBase (Some B), FObjectPropertyBase (Some C)]),
              (B, [FObjectPropertyBase (Some C)]),
              (C, [])] (Some A) {}) = 3"
    if "A \<noteq> B \<and> A \<noteq> C \<and> B \<noteq> C"
    using that by (auto simp: Properties_def)
  show ?thesis
    using small diamond
    by (simp only: CountReferencedObjects_fresh finite_Reachable Reachable_root) simp
qed

theorem CountReferencedObjects_counts_reachable_once_witness:
  "card (Reachable [(0, [FObjectPropertyBase (Some 1),
                         FArrayProperty 8 (ObjectElements [Some 2, None, Some 1])]),
                    (1, [FObjectPropertyBase (Some 2)]),
                    (2, [FArrayProperty 8 (ObjectElements [Some 0])])] 0) = 3 \<and>
   sint (fst (CountReferencedObjects
                  [(0, [FObjectPropertyBase (Some 1),
                        FArrayProperty 8 (ObjectElements [Some 2, None, Some 1])]),
                   (1, [FObjectPropertyBase (Some 2)]),
                   (2, [FArrayProperty 8 (ObjectElements [Some 0])])] (Some 0) {})) = 3 \<and>
   fst (CountReferencedObjects
          [(10, [FObjectPropertyBase (Some 11), FObjectPropertyBase (Some 12)]),
           (11, [FObjectPropertyBase (Some 12)]),
           (12, [])] (Some 10) {}) = 3"
proof -
  let ?h = "[(0, [FObjectPropertyBase (Some 1),
                  FArrayProperty 8 (ObjectElements [Some 2, None, Some 1])]),
             (1, [FObjectPropertyBase (Some 2)]),
             (2, [FArrayProperty 8 (ObjectElements [Some 0])])]"
  note t = CountReferencedObjects_counts_reachable_once [of ?h 0 10 11 12]
  have run: "CountReferencedObjects ?h (Some 0) {} = (3, {0, 1, 2})"
    by (simp add: Properties_def insert_commute)
  from t run have R: "Reachable ?h 0 = {0, 1, 2}" by simp
  then have c: "card (Reachable ?h 0) = 3" by simp
  moreover from t c have "sint (fst (CountReferencedObjects ?h (Some 0) {})) = 3"
    by simp
  moreover from t have "fst (CountReferencedObjects
          [(10, [FObjectPropertyBase (Some 11), FObjectPropertyBase (Some 12)]),
           (11, [FObjectPropertyBase (Some 12)]),
           (12, [])] (Some 10) {}) = 3"
    by simp
  ultimately show ?thesis by simp
qed

text \<open>
  C4. \<open>CountReferencedObjects\<close> terminates on every heap, cycles and self-references
  included: every argument lies in the domain of the recursion, the part of the call
  relation from which every chain of recursive calls is finite. A call on an object not yet
  visited returns a visited set that is strictly larger, by finitely many objects. A
  reference of an object to itself, in a field or in an array, does not change the result:
  the call on the object with the self-reference returns what the call on the object
  without it returns.
\<close>

theorem CountReferencedObjects_terminates:
  "CountReferencedObjects_CRO_properties_CRO_elements_dom (Inl (h, obj, V)) \<and>
   (x \<notin> V \<longrightarrow>
      V \<subset> snd (CountReferencedObjects h (Some x) V) \<and>
      finite (snd (CountReferencedObjects h (Some x) V) - V)) \<and>
   (Properties h x = ps @ qs \<longrightarrow>
      CountReferencedObjects ((x, ps @ FObjectPropertyBase (Some x) # qs) # h) (Some x) {} =
      CountReferencedObjects h (Some x) {}) \<and>
   (Properties h x = ps @ FArrayProperty sz (ObjectElements (es @ fs)) # qs \<longrightarrow>
      CountReferencedObjects
        ((x, ps @ FArrayProperty sz (ObjectElements (es @ Some x # fs)) # qs) # h) (Some x) {} =
      CountReferencedObjects h (Some x) {})"
  using CRO_all_dom(1) [of h obj V] CRO_grows [of x V h]
    CRO_irreflexive [OF self_field_References, of h x ps qs x]
    CRO_irreflexive [OF self_element_References, of h x ps sz es fs qs x]
  by blast

theorem CountReferencedObjects_terminates_witness:
  "(1::nat) \<notin> {} \<and>
   {} \<subset> snd (CountReferencedObjects [(1, [FOtherProperty 4, FNameProperty])] (Some 1) {}) \<and>
   Properties [(1, [FOtherProperty 4, FNameProperty])] 1 = [FOtherProperty 4] @ [FNameProperty] \<and>
   CountReferencedObjects
     [(1, [FOtherProperty 4] @ FObjectPropertyBase (Some 1) # [FNameProperty]),
      (1, [FOtherProperty 4, FNameProperty])] (Some 1) {} = (1, {1}) \<and>
   Properties [(1, [FArrayProperty 8 (ObjectElements [None])])] 1 =
     [] @ FArrayProperty 8 (ObjectElements ([None] @ [])) # [] \<and>
   CountReferencedObjects
     [(1, [] @ FArrayProperty 8 (ObjectElements ([None] @ Some 1 # [])) # []),
      (1, [FArrayProperty 8 (ObjectElements [None])])] (Some 1) {} = (1, {1})"
proof -
  have p1: "Properties [(1, [FOtherProperty 4, FNameProperty])] 1 = [FOtherProperty 4] @ [FNameProperty]"
    by (simp add: Properties_def)
  have p2: "Properties [(1, [FArrayProperty 8 (ObjectElements [None])])] 1 =
     [] @ FArrayProperty 8 (ObjectElements ([None] @ [])) # []"
    by (simp add: Properties_def)
  have r1: "CountReferencedObjects [(1, [FOtherProperty 4, FNameProperty])] (Some 1) {} = (1, {1})"
    by (simp add: Properties_def)
  have r2: "CountReferencedObjects [(1, [FArrayProperty 8 (ObjectElements [None])])] (Some 1) {} = (1, {1})"
    by (simp add: Properties_def)
  show ?thesis
    using p1 p2 r1 r2
      CountReferencedObjects_terminates [of "[(1, [FOtherProperty 4, FNameProperty])]" "Some 1" "{}"
        1 "[FOtherProperty 4]" "[FNameProperty]"]
      CountReferencedObjects_terminates [of "[(1, [FArrayProperty 8 (ObjectElements [None])])]"
        "Some 1" "{}" 1 "[]" "[]" 8 "[None]" "[]"]
    by (simp del: CountReferencedObjects.simps)
qed

section \<open>Properties of the memory sampler\<close>

lemma CalculateMemoryUsage_loop_sum:
  "CalculateMemoryUsage_loop ps TotalSize = TotalSize + sum_list (map FieldBytes ps)"
  by (induction ps TotalSize rule: CalculateMemoryUsage_loop.induct) (simp_all add: add.assoc)

lemma swap_remove_split:
  "butlast ((xs @ w # rest)[length xs := last (xs @ w # rest)]) =
     xs @ (if rest = [] then [] else last rest # butlast rest)"
  by (simp add: list_update_append butlast_append)

lemma mset_rotate_last: "mset (if rest = [] then [] else last rest # butlast rest) = mset rest"
  by (cases rest rule: rev_cases) simp_all

lemma swap_remove_parts:
  assumes "k < length ws"
  shows "take k (butlast (ws[k := last ws])) = take k ws"
    and "mset (drop k (butlast (ws[k := last ws]))) = mset (drop (Suc k) ws)"
proof -
  define xs rest where "xs = take k ws" and "rest = drop (Suc k) ws"
  from assms have ws: "ws = xs @ ws ! k # rest" and len: "length xs = k"
    by (simp_all add: xs_def rest_def id_take_nth_drop)
  have eq: "butlast (ws[k := last ws]) = xs @ (if rest = [] then [] else last rest # butlast rest)"
    using swap_remove_split [of xs "ws ! k" rest] ws len by metis
  show "take k (butlast (ws[k := last ws])) = take k ws"
    unfolding eq using len by (simp add: xs_def)
  have "drop k (butlast (ws[k := last ws])) = (if rest = [] then [] else last rest # butlast rest)"
    unfolding eq using len by simp
  then show "mset (drop k (butlast (ws[k := last ws]))) = mset (drop (Suc k) ws)"
    by (simp only: mset_rotate_last rest_def)
qed

lemma swap_remove_mset:
  assumes "k < length ws"
  shows "mset ws = add_mset (ws ! k) (mset (butlast (ws[k := last ws])))"
proof -
  have "mset ws = mset (take k ws) + mset (drop k ws)"
    by (metis append_take_drop_id mset_append)
  also have "drop k ws = ws ! k # drop (Suc k) ws"
    using assms by (simp add: Cons_nth_drop_Suc)
  finally have "mset ws = add_mset (ws ! k) (mset (take k ws) + mset (drop (Suc k) ws))"
    by simp
  moreover have "mset (butlast (ws[k := last ws])) =
      mset (take k (butlast (ws[k := last ws]))) + mset (drop k (butlast (ws[k := last ws])))"
    by (metis append_take_drop_id mset_append)
  ultimately show ?thesis
    using assms by (simp add: swap_remove_parts)
qed

lemma IsValid_Get: "IsValid E w \<longleftrightarrow> Get E w \<noteq> None"
  by (simp add: IsValid_def Get_def split: option.splits)

lemma Get_Some: "Get E w = Some x \<longleftrightarrow> w = Some x \<and> ObjectState E x = Live"
  by (auto simp: Get_def split: option.splits)

lemma Get_not_PendingKill: "Get E w = Some x \<Longrightarrow> \<not> IsPendingKill E x"
  by (simp add: Get_Some IsPendingKill_def)

lemma SamplingStep_live:
  assumes "k < length (TrackedObjects T)" and "Get E (TrackedObjects T ! k) = Some x"
  shows "SamplingStep E k T = Some (T\<lparr>CachedMemoryInfo := CachedMemoryInfo T @ [MeasureObject E x]\<rparr>)"
  using assms by (simp add: SamplingStep_def At_def IsValid_Get Get_not_PendingKill)

lemma SamplingStep_gone:
  assumes "k < length (TrackedObjects T)" and "Get E (TrackedObjects T ! k) = None"
  shows "SamplingStep E k T =
    Some (T\<lparr>TrackedObjects := butlast ((TrackedObjects T)[k := last (TrackedObjects T)])\<rparr>)"
  using assms by (simp add: SamplingStep_def At_def IsValid_Get RemoveTracked_def RemoveAtSwap_def)

lemma LiveReferents_snoc:
  "LiveReferents E (ws @ [w]) = LiveReferents E ws @ (case Get E w of None \<Rightarrow> [] | Some x \<Rightarrow> [x])"
  by (simp add: LiveReferents_def List.map_filter_def split: option.splits)

lemma filter_IsValid_snoc:
  "filter (IsValid E) (ws @ [w]) = filter (IsValid E) ws @ (if Get E w = None then [] else [w])"
  by (simp add: IsValid_Get)

lemma SamplingLoop_result:
  assumes "n \<le> length (TrackedObjects T)"
  shows "\<exists>T'. SamplingLoop E n T = Some T' \<and>
      T' = T\<lparr>TrackedObjects := TrackedObjects T', CachedMemoryInfo := CachedMemoryInfo T'\<rparr> \<and>
      mset (TrackedObjects T') =
        mset (filter (IsValid E) (take n (TrackedObjects T))) + mset (drop n (TrackedObjects T)) \<and>
      CachedMemoryInfo T' =
        CachedMemoryInfo T @ map (MeasureObject E) (rev (LiveReferents E (take n (TrackedObjects T))))"
  using assms
proof (induction n arbitrary: T)
  case 0
  then show ?case by (simp add: LiveReferents_def List.map_filter_def)
next
  case (Suc k)
  let ?ws = "TrackedObjects T"
  from Suc.prems have k: "k < length ?ws" by simp
  then have tk: "take (Suc k) ?ws = take k ?ws @ [?ws ! k]"
    by (simp add: take_Suc_conv_app_nth)
  from k have dk: "drop k ?ws = ?ws ! k # drop (Suc k) ?ws"
    by (simp add: Cons_nth_drop_Suc)
  show ?case
  proof (cases "Get E (?ws ! k)")
    case (Some x)
    let ?T1 = "T\<lparr>CachedMemoryInfo := CachedMemoryInfo T @ [MeasureObject E x]\<rparr>"
    from k Some have step: "SamplingStep E k T = Some ?T1" by (rule SamplingStep_live)
    from k have "k \<le> length (TrackedObjects ?T1)" by simp
    from Suc.IH [OF this] obtain T' where
      run: "SamplingLoop E k ?T1 = Some T'" and
      frame: "T' = ?T1\<lparr>TrackedObjects := TrackedObjects T', CachedMemoryInfo := CachedMemoryInfo T'\<rparr>" and
      tr: "mset (TrackedObjects T') = mset (filter (IsValid E) (take k ?ws)) + mset (drop k ?ws)" and
      ca: "CachedMemoryInfo T' = (CachedMemoryInfo T @ [MeasureObject E x]) @
             map (MeasureObject E) (rev (LiveReferents E (take k ?ws)))"
      by auto
    have "SamplingLoop E (Suc k) T = Some T'" using step run by simp
    moreover have "T' = T\<lparr>TrackedObjects := TrackedObjects T', CachedMemoryInfo := CachedMemoryInfo T'\<rparr>"
      using frame by (metis (no_types, lifting) UMemoryUsageTracker.surjective UMemoryUsageTracker.update_convs(3,4))
    moreover have "mset (TrackedObjects T') =
        mset (filter (IsValid E) (take (Suc k) ?ws)) + mset (drop (Suc k) ?ws)"
      using tr Some by (simp add: tk dk IsValid_Get)
    moreover have "CachedMemoryInfo T' =
        CachedMemoryInfo T @ map (MeasureObject E) (rev (LiveReferents E (take (Suc k) ?ws)))"
      using ca Some by (simp add: tk LiveReferents_snoc)
    ultimately show ?thesis by blast
  next
    case None
    let ?ws1 = "butlast (?ws[k := last ?ws])"
    let ?T1 = "T\<lparr>TrackedObjects := ?ws1\<rparr>"
    from k None have step: "SamplingStep E k T = Some ?T1" by (rule SamplingStep_gone)
    from k have "k \<le> length (TrackedObjects ?T1)" by simp
    from Suc.IH [OF this] obtain T' where
      run: "SamplingLoop E k ?T1 = Some T'" and
      frame: "T' = ?T1\<lparr>TrackedObjects := TrackedObjects T', CachedMemoryInfo := CachedMemoryInfo T'\<rparr>" and
      tr: "mset (TrackedObjects T') = mset (filter (IsValid E) (take k ?ws1)) + mset (drop k ?ws1)" and
      ca: "CachedMemoryInfo T' = CachedMemoryInfo T @
             map (MeasureObject E) (rev (LiveReferents E (take k ?ws1)))"
      by auto
    have "SamplingLoop E (Suc k) T = Some T'" using step run by simp
    moreover have "T' = T\<lparr>TrackedObjects := TrackedObjects T', CachedMemoryInfo := CachedMemoryInfo T'\<rparr>"
      using frame by simp
    moreover have "mset (TrackedObjects T') =
        mset (filter (IsValid E) (take (Suc k) ?ws)) + mset (drop (Suc k) ?ws)"
      using tr None k by (simp add: tk IsValid_Get swap_remove_parts)
    moreover have "CachedMemoryInfo T' =
        CachedMemoryInfo T @ map (MeasureObject E) (rev (LiveReferents E (take (Suc k) ?ws)))"
      using ca None k by (simp add: tk LiveReferents_snoc swap_remove_parts)
    ultimately show ?thesis by blast
  qed
qed


lemma SamplingPass_result:
  "\<exists>T'. SamplingPass E T = Some T' \<and>
      T' = T\<lparr>TimeAccumulator := 0, TrackedObjects := TrackedObjects T',
              CachedMemoryInfo := CachedMemoryInfo T'\<rparr> \<and>
      mset (TrackedObjects T') = mset (filter (IsValid E) (TrackedObjects T)) \<and>
      CachedMemoryInfo T' = map (MeasureObject E) (rev (LiveReferents E (TrackedObjects T)))"
proof -
  let ?T0 = "ClearCachedInfo (T\<lparr>TimeAccumulator := 0\<rparr>)"
  have "length (TrackedObjects T) \<le> length (TrackedObjects ?T0)"
    by (simp add: ClearCachedInfo_def)
  from SamplingLoop_result [OF this, of E] obtain T' where
    run: "SamplingLoop E (length (TrackedObjects T)) ?T0 = Some T'" and
    frame: "T' = ?T0\<lparr>TrackedObjects := TrackedObjects T', CachedMemoryInfo := CachedMemoryInfo T'\<rparr>" and
    tr: "mset (TrackedObjects T') =
      mset (filter (IsValid E) (take (length (TrackedObjects T)) (TrackedObjects ?T0))) +
      mset (drop (length (TrackedObjects T)) (TrackedObjects ?T0))" and
    ca: "CachedMemoryInfo T' = CachedMemoryInfo ?T0 @
      map (MeasureObject E) (rev (LiveReferents E (take (length (TrackedObjects T)) (TrackedObjects ?T0))))"
    by blast
  have "SamplingPass E T = Some T'"
    using run by (simp add: SamplingPass_def)
  moreover have "T' = T\<lparr>TimeAccumulator := 0, TrackedObjects := TrackedObjects T',
              CachedMemoryInfo := CachedMemoryInfo T'\<rparr>"
    using frame by (simp add: ClearCachedInfo_def)
  moreover have "mset (TrackedObjects T') = mset (filter (IsValid E) (TrackedObjects T))"
    using tr by (simp add: ClearCachedInfo_def)
  moreover have "CachedMemoryInfo T' = map (MeasureObject E) (rev (LiveReferents E (TrackedObjects T)))"
    using ca by (simp add: ClearCachedInfo_def)
  ultimately show ?thesis by blast
qed

lemma LiveReferents_simps:
  "LiveReferents E [] = []"
  "LiveReferents E (w # ws) =
     (case Get E w of None \<Rightarrow> LiveReferents E ws | Some x \<Rightarrow> x # LiveReferents E ws)"
  by (simp_all add: LiveReferents_def List.map_filter_def split: option.splits)

lemma set_LiveReferents: "set (LiveReferents E ws) = {x. Some x \<in> set ws \<and> ObjectState E x = Live}"
  by (induction ws) (auto simp: LiveReferents_simps Get_def split: option.splits)

lemma IsValid_Some: "IsValid E w \<longleftrightarrow> (\<exists>x. w = Some x \<and> ObjectState E x = Live)"
  by (cases w) (simp_all add: IsValid_def)

text \<open>
  C2 (as the code has it). A null object yields 0. For an object, \<open>CalculateMemoryUsage\<close>
  returns \<open>sizeof(UObject)\<close> plus, for each reflected field: the element count times the
  element size for an array, arrays of object references included; the allocated size for a
  string; nothing for a name and for a single object reference; the declared width for any
  other field. The sum is taken in the \<open>int64\<close> total, the product of an array in \<open>int32\<close>.
\<close>

theorem CalculateMemoryUsage_sum:
  "CalculateMemoryUsage E None = 0 \<and>
   CalculateMemoryUsage E (Some x) =
     sizeof_UObject E + sum_list (map FieldBytes (Properties (Heap E) x))"
  by (simp add: CalculateMemoryUsage_def CalculateMemoryUsage_loop_sum)

text \<open>
  C2 as the specification words it fails on an array of object references: object 3 of the
  example has one array of two references with eight-byte elements and a name; the code
  returns \<open>40 + 16\<close>, the specification's sum is \<open>40\<close>.
\<close>

theorem CalculateMemoryUsage_reference_array_counterexample:
  "CalculateMemoryUsage ExampleEngine (Some 3) = 56 \<and>
   MemoryUsage_as_specified ExampleEngine (Some 3) = 40 \<and>
   CalculateMemoryUsage ExampleEngine (Some 3) \<noteq> MemoryUsage_as_specified ExampleEngine (Some 3)"
  by (simp add: CalculateMemoryUsage_def MemoryUsage_as_specified_def ExampleEngine_def
      Properties_def)

text \<open>
  C9. Every invalid input is a no-op that logs one warning: \<open>RegisterObject\<close> and
  \<open>UnregisterObject\<close> with a null object and \<open>LogEvent\<close> with an empty name return (no
  failure) with the state as it was but for the warning appended to the output log; in
  particular the event count does not change.
\<close>

theorem invalid_input_is_noop_with_warning:
  "RegisterObject E None T =
     T\<lparr>LogTemp := LogTemp T @ [(Warning, ''[MemoryUsageTracker] RegisterObject called with null.'')]\<rparr> \<and>
   UnregisterObject E None T =
     Some (T\<lparr>LogTemp := LogTemp T @
              [(Warning, ''[MemoryUsageTracker] UnregisterObject called with null.'')]\<rparr>) \<and>
   LogEvent WE W U P [] c lg =
     lg\<lparr>LogTemp := LogTemp lg @
              [(Warning, ''[GameplayEventLogger] LogEvent called with empty EventName.'')]\<rparr> \<and>
   EventLog (LogEvent WE W U P [] c lg) = EventLog lg \<and>
   GetEventCount (LogEvent WE W U P [] c lg) = GetEventCount lg \<and>
   TrackedObjects (RegisterObject E None T) = TrackedObjects T \<and>
   CachedMemoryInfo (RegisterObject E None T) = CachedMemoryInfo T"
  by (simp add: RegisterObject_def UnregisterObject_def LogEvent_def UE_LOG_def GetEventCount_def)

text \<open>
  C6. A sampling pass returns (no index leaves the array), keeps exactly the handles that
  still resolve, and rebuilds the cache with one record per such handle, measured from the
  live object, in the reverse of the tracked order. So a handle whose referent is destroyed
  is gone from the tracked set and has no record, every record refers to a live object, and
  every other tracked object keeps its handle and gets its record. \<open>TickComponent\<close> runs this
  pass when the accumulator reaches the interval.
\<close>

theorem SamplingPass_drops_destroyed:
  fixes T :: "('t::{zero,plus,ord}) UMemoryUsageTracker"
  shows
  "\<exists>T'. SamplingPass E T = Some T' \<and>
      mset (TrackedObjects T') = mset (filter (IsValid E) (TrackedObjects T)) \<and>
      CachedMemoryInfo T' = map (MeasureObject E) (rev (LiveReferents E (TrackedObjects T))) \<and>
      (\<forall>x. Some x \<in> set (TrackedObjects T) \<and> ObjectState E x \<noteq> Live \<longrightarrow>
           Some x \<notin> set (TrackedObjects T') \<and>
           (\<forall>Info \<in> set (CachedMemoryInfo T'). TrackedObject Info \<noteq> Some x)) \<and>
      (\<forall>Info \<in> set (CachedMemoryInfo T').
           \<exists>x. TrackedObject Info = Some x \<and> ObjectState E x = Live) \<and>
      (\<forall>x. Some x \<in> set (TrackedObjects T) \<and> ObjectState E x = Live \<longrightarrow>
           Some x \<in> set (TrackedObjects T') \<and> MeasureObject E x \<in> set (CachedMemoryInfo T')) \<and>
      (\<not> SampleInterval T \<le> 0 \<and> TrackedObjects T \<noteq> [] \<and>
       SampleInterval T \<le> TimeAccumulator T + DeltaTime \<longrightarrow>
         TickComponent E DeltaTime T =
           SamplingPass E (T\<lparr>TimeAccumulator := TimeAccumulator T + DeltaTime\<rparr>))"
proof -
  from SamplingPass_result [of E T] obtain T' where
    run: "SamplingPass E T = Some T'" and
    tr: "mset (TrackedObjects T') = mset (filter (IsValid E) (TrackedObjects T))" and
    ca: "CachedMemoryInfo T' = map (MeasureObject E) (rev (LiveReferents E (TrackedObjects T)))"
    by blast
  from tr have set_tr: "set (TrackedObjects T') = {w \<in> set (TrackedObjects T). IsValid E w}"
    by (metis mset_eq_setD set_filter)
  have set_ca: "set (CachedMemoryInfo T') =
      MeasureObject E ` {x. Some x \<in> set (TrackedObjects T) \<and> ObjectState E x = Live}"
    by (simp add: ca set_LiveReferents)
  have gone: "Some x \<notin> set (TrackedObjects T') \<and>
      (\<forall>Info \<in> set (CachedMemoryInfo T'). TrackedObject Info \<noteq> Some x)"
    if "ObjectState E x \<noteq> Live" for x
    using that by (auto simp: set_tr set_ca IsValid_Some MeasureObject_def)
  have live: "\<forall>Info \<in> set (CachedMemoryInfo T').
      \<exists>x. TrackedObject Info = Some x \<and> ObjectState E x = Live"
    by (auto simp: set_ca MeasureObject_def)
  have kept: "Some x \<in> set (TrackedObjects T') \<and> MeasureObject E x \<in> set (CachedMemoryInfo T')"
    if "Some x \<in> set (TrackedObjects T)" "ObjectState E x = Live" for x
    using that by (auto simp: set_tr set_ca IsValid_Some)
  have tick: "TickComponent E DeltaTime T =
      SamplingPass E (T\<lparr>TimeAccumulator := TimeAccumulator T + DeltaTime\<rparr>)"
    if "\<not> SampleInterval T \<le> 0 \<and> TrackedObjects T \<noteq> [] \<and>
       SampleInterval T \<le> TimeAccumulator T + DeltaTime"
    using that by (simp add: TickComponent_def Let_def)
  from run tr ca gone live kept tick show ?thesis by blast
qed


theorem SamplingPass_drops_destroyed_witness:
  "Some 2 \<in> set (TrackedObjects ExampleTracker) \<and> ObjectState ExampleEngine 2 \<noteq> Live \<and>
   Some 1 \<in> set (TrackedObjects ExampleTracker) \<and> ObjectState ExampleEngine 1 = Live \<and>
   \<not> SampleInterval ExampleTracker \<le> 0 \<and> TrackedObjects ExampleTracker \<noteq> [] \<and>
   SampleInterval ExampleTracker \<le> TimeAccumulator ExampleTracker + 1 \<and>
   (\<exists>T'. TickComponent ExampleEngine 1 ExampleTracker = Some T' \<and>
      TrackedObjects T' = [Some 1, Some 3] \<and>
      CachedMemoryInfo T' = [MeasureObject ExampleEngine 3, MeasureObject ExampleEngine 1] \<and>
      Some 2 \<notin> set (TrackedObjects T') \<and>
      Some 2 \<notin> TrackedObject ` set (CachedMemoryInfo T') \<and>
      Some 1 \<in> set (TrackedObjects T') \<and>
      MeasureObject ExampleEngine 1 \<in> set (CachedMemoryInfo T'))"
proof -
  let ?T = "ExampleTracker\<lparr>TimeAccumulator := TimeAccumulator ExampleTracker + 1\<rparr>"
  have hyps: "Some 2 \<in> set (TrackedObjects ExampleTracker) \<and> ObjectState ExampleEngine 2 \<noteq> Live"
    "Some 1 \<in> set (TrackedObjects ExampleTracker) \<and> ObjectState ExampleEngine 1 = Live"
    "\<not> SampleInterval ExampleTracker \<le> 0 \<and> TrackedObjects ExampleTracker \<noteq> [] \<and>
       SampleInterval ExampleTracker \<le> TimeAccumulator ExampleTracker + 1"
    by (simp_all add: ExampleTracker_def ExampleEngine_def)
  have run: "SamplingPass ExampleEngine ?T =
      Some (ExampleTracker\<lparr>TimeAccumulator := 0, TrackedObjects := [Some 1, Some 3],
        CachedMemoryInfo := [MeasureObject ExampleEngine 3, MeasureObject ExampleEngine 1]\<rparr>)"
    by (simp add: SamplingPass_def SamplingStep_def At_def RemoveTracked_def RemoveAtSwap_def
        IsValid_def Get_def IsPendingKill_def ClearCachedInfo_def ExampleTracker_def
        ExampleEngine_def)
  from SamplingPass_drops_destroyed [of ExampleEngine ExampleTracker 1] hyps(3)
  have tick: "TickComponent ExampleEngine 1 ExampleTracker = SamplingPass ExampleEngine ?T"
    by blast
  from SamplingPass_drops_destroyed [of ExampleEngine ?T 1] obtain T' where
    T': "SamplingPass ExampleEngine ?T = Some T'"
    and gone: "\<forall>x. Some x \<in> set (TrackedObjects ?T) \<and> ObjectState ExampleEngine x \<noteq> Live \<longrightarrow>
           Some x \<notin> set (TrackedObjects T') \<and>
           (\<forall>Info \<in> set (CachedMemoryInfo T'). TrackedObject Info \<noteq> Some x)"
    and kept: "\<forall>x. Some x \<in> set (TrackedObjects ?T) \<and> ObjectState ExampleEngine x = Live \<longrightarrow>
           Some x \<in> set (TrackedObjects T') \<and>
           MeasureObject ExampleEngine x \<in> set (CachedMemoryInfo T')"
    by blast
  from gone hyps(1) have "Some 2 \<notin> set (TrackedObjects T') \<and>
      (\<forall>Info \<in> set (CachedMemoryInfo T'). TrackedObject Info \<noteq> Some 2)"
    by simp
  then have g2: "Some 2 \<notin> set (TrackedObjects T') \<and>
      Some 2 \<notin> TrackedObject ` set (CachedMemoryInfo T')"
    by (metis imageE)
  from kept hyps(2) have k1: "Some 1 \<in> set (TrackedObjects T') \<and>
      MeasureObject ExampleEngine 1 \<in> set (CachedMemoryInfo T')"
    by simp
  from run T' have "TrackedObjects T' = [Some 1, Some 3]"
    "CachedMemoryInfo T' = [MeasureObject ExampleEngine 3, MeasureObject ExampleEngine 1]"
    by auto
  with tick T' g2 k1 hyps show ?thesis by simp
qed

text \<open>
  C5 (as the code has it). With a positive interval and at least one tracked handle, a tick
  adds \<open>DeltaTime\<close> to the accumulator; if the accumulator has then reached the interval,
  exactly one sampling pass runs and leaves the accumulator at zero, and otherwise nothing
  else changes. With no tracked handle, or an interval that is not positive, the tick
  changes nothing: the accumulator does not advance.
\<close>

theorem TickComponent_advance:
  fixes T :: "('t::{zero,plus,ord}) UMemoryUsageTracker"
  shows
  "(SampleInterval T \<le> 0 \<or> TrackedObjects T = [] \<longrightarrow> TickComponent E DeltaTime T = Some T) \<and>
   (\<not> SampleInterval T \<le> 0 \<and> TrackedObjects T \<noteq> [] \<and>
    \<not> SampleInterval T \<le> TimeAccumulator T + DeltaTime \<longrightarrow>
      TickComponent E DeltaTime T = Some (T\<lparr>TimeAccumulator := TimeAccumulator T + DeltaTime\<rparr>)) \<and>
   (\<not> SampleInterval T \<le> 0 \<and> TrackedObjects T \<noteq> [] \<and>
    SampleInterval T \<le> TimeAccumulator T + DeltaTime \<longrightarrow>
      TickComponent E DeltaTime T =
        SamplingPass E (T\<lparr>TimeAccumulator := TimeAccumulator T + DeltaTime\<rparr>) \<and>
      (\<exists>T'. TickComponent E DeltaTime T = Some T' \<and> TimeAccumulator T' = 0 \<and>
            SampleInterval T' = SampleInterval T \<and>
            ComponentTickEnabled T' = ComponentTickEnabled T \<and> LogTemp T' = LogTemp T))"
proof -
  let ?T = "T\<lparr>TimeAccumulator := TimeAccumulator T + DeltaTime\<rparr>"
  from SamplingPass_result [of E ?T] obtain T' where
    run: "SamplingPass E ?T = Some T'" and
    frame: "T' = ?T\<lparr>TimeAccumulator := 0, TrackedObjects := TrackedObjects T',
              CachedMemoryInfo := CachedMemoryInfo T'\<rparr>"
    by blast
  from frame have "TimeAccumulator T' = 0"
    by (metis (no_types, lifting) UMemoryUsageTracker.select_convs(1) UMemoryUsageTracker.surjective
        UMemoryUsageTracker.update_convs(1,3,4))
  moreover from frame have "SampleInterval T' = SampleInterval T"
    by (metis (no_types, lifting) UMemoryUsageTracker.select_convs(2) UMemoryUsageTracker.surjective
        UMemoryUsageTracker.update_convs(1,3,4))
  moreover from frame have "ComponentTickEnabled T' = ComponentTickEnabled T \<and> LogTemp T' = LogTemp T"
    by (metis (no_types, lifting) UActorComponent.select_convs(1,2) UMemoryUsageTracker.surjective
        UMemoryUsageTracker.update_convs(1,3,4))
  ultimately show ?thesis
    using run by (auto simp: TickComponent_def Let_def)
qed


theorem TickComponent_advance_witness:
  "TrackedObjects IdleTracker = [] \<and>
   TickComponent ExampleEngine 1 IdleTracker = Some IdleTracker \<and>
   \<not> SampleInterval (ExampleTracker\<lparr>TimeAccumulator := 2\<rparr>) \<le> 0 \<and>
   TrackedObjects (ExampleTracker\<lparr>TimeAccumulator := 2\<rparr>) \<noteq> [] \<and>
   \<not> SampleInterval (ExampleTracker\<lparr>TimeAccumulator := 2\<rparr>)
       \<le> TimeAccumulator (ExampleTracker\<lparr>TimeAccumulator := 2\<rparr>) + 1 \<and>
   TickComponent ExampleEngine 1 (ExampleTracker\<lparr>TimeAccumulator := 2\<rparr>) =
     Some (ExampleTracker\<lparr>TimeAccumulator := 3\<rparr>) \<and>
   \<not> SampleInterval ExampleTracker \<le> 0 \<and> TrackedObjects ExampleTracker \<noteq> [] \<and>
   SampleInterval ExampleTracker \<le> TimeAccumulator ExampleTracker + 1 \<and>
   (\<exists>T'. TickComponent ExampleEngine 1 ExampleTracker = Some T' \<and> TimeAccumulator T' = 0)"
proof -
  have idle: "TrackedObjects IdleTracker = []"
    by (simp add: IdleTracker_def)
  have below: "\<not> SampleInterval (ExampleTracker\<lparr>TimeAccumulator := 2\<rparr>) \<le> 0 \<and>
      TrackedObjects (ExampleTracker\<lparr>TimeAccumulator := 2\<rparr>) \<noteq> [] \<and>
      \<not> SampleInterval (ExampleTracker\<lparr>TimeAccumulator := 2\<rparr>)
          \<le> TimeAccumulator (ExampleTracker\<lparr>TimeAccumulator := 2\<rparr>) + 1"
    by (simp add: ExampleTracker_def)
  have reach: "\<not> SampleInterval ExampleTracker \<le> 0 \<and> TrackedObjects ExampleTracker \<noteq> [] \<and>
      SampleInterval ExampleTracker \<le> TimeAccumulator ExampleTracker + 1"
    by (simp add: ExampleTracker_def)
  from idle TickComponent_advance [where T = IdleTracker and E = ExampleEngine and DeltaTime = 1]
  have 1: "TickComponent ExampleEngine 1 IdleTracker = Some IdleTracker" by blast
  from below TickComponent_advance [where T = "ExampleTracker\<lparr>TimeAccumulator := 2\<rparr>" and E = ExampleEngine and DeltaTime = 1]
  have 2: "TickComponent ExampleEngine 1 (ExampleTracker\<lparr>TimeAccumulator := 2\<rparr>) =
     Some (ExampleTracker\<lparr>TimeAccumulator := 3\<rparr>)" by simp
  from reach TickComponent_advance [where T = ExampleTracker and E = ExampleEngine and DeltaTime = 1]
  have 3: "\<exists>T'. TickComponent ExampleEngine 1 ExampleTracker = Some T' \<and> TimeAccumulator T' = 0"
    by blast
  from idle below reach 1 2 3 show ?thesis by blast
qed

text \<open>
  C5 as the specification words it fails when nothing is tracked: the tick returns before
  it touches the accumulator, where the specification's advance adds \<open>DeltaTime\<close>.
\<close>

theorem TickComponent_untracked_counterexample:
  "TickComponent ExampleEngine 1 IdleTracker = Some IdleTracker \<and>
   TimeAccumulator IdleTracker = 0 \<and>
   Advance_as_specified ExampleEngine 1 IdleTracker = Some (IdleTracker\<lparr>TimeAccumulator := 1\<rparr>) \<and>
   TickComponent ExampleEngine 1 IdleTracker \<noteq> Advance_as_specified ExampleEngine 1 IdleTracker"
  by (simp add: TickComponent_def Advance_as_specified_def IdleTracker_def Let_def)

lemma last_match_exists:
  fixes n :: nat
  assumes "\<exists>k<n. P k"
  shows "\<exists>m<n. P m \<and> (\<forall>j. m < j \<and> j < n \<longrightarrow> \<not> P j)"
  using assms
proof (induction n)
  case 0
  then show ?case by simp
next
  case (Suc n)
  show ?case
  proof (cases "P n")
    case True
    then have "n < Suc n \<and> P n \<and> (\<forall>j. n < j \<and> j < Suc n \<longrightarrow> \<not> P j)" by auto
    then show ?thesis by blast
  next
    case False
    with Suc.prems have "\<exists>k<n. P k" by (metis less_Suc_eq)
    from Suc.IH [OF this] obtain m where m: "m < n" "P m" "\<forall>j. m < j \<and> j < n \<longrightarrow> \<not> P j"
      by blast
    with False have "m < Suc n \<and> P m \<and> (\<forall>j. m < j \<and> j < Suc n \<longrightarrow> \<not> P j)"
      by (auto simp: less_Suc_eq)
    then show ?thesis by blast
  qed
qed

lemma UnregisterObject_loop_no_match:
  assumes "n \<le> length (TrackedObjects T)"
    and "\<forall>j<n. Get E (TrackedObjects T ! j) \<noteq> Some x"
  shows "UnregisterObject_loop E x n T = Some T"
  using assms by (induction n) (simp_all add: At_def)

lemma UnregisterObject_loop_match:
  assumes "n \<le> length (TrackedObjects T)" and "i < n"
    and "Get E (TrackedObjects T ! i) = Some x"
    and "\<forall>j. i < j \<and> j < n \<longrightarrow> Get E (TrackedObjects T ! j) \<noteq> Some x"
  shows "UnregisterObject_loop E x n T =
    Some (T\<lparr>TrackedObjects := butlast ((TrackedObjects T)[i := last (TrackedObjects T)])\<rparr>)"
  using assms
proof (induction n)
  case 0
  then show ?case by simp
next
  case (Suc n)
  show ?case
  proof (cases "i = n")
    case True
    with Suc.prems show ?thesis
      by (simp add: At_def RemoveAtSwap_def)
  next
    case False
    with Suc.prems have "i < n" "Get E (TrackedObjects T ! n) \<noteq> Some x" by auto
    with Suc show ?thesis
      by (simp add: At_def)
  qed
qed

text \<open>
  C10. \<open>UnregisterObject\<close> with a non-null object returns, and changes nothing but the
  tracked set. If no handle resolves to the object, the state is unchanged. Otherwise it
  removes one handle, the one at the greatest index that resolves to the object, by moving
  the last handle into its place: the tracked set loses that one handle and keeps every
  other one, also the further handles that resolve to the same object.
\<close>

theorem UnregisterObject_removes_one:
  "(\<exists>T'. UnregisterObject E (Some x) T = Some T' \<and> T' = T\<lparr>TrackedObjects := TrackedObjects T'\<rparr> \<and>
         CachedMemoryInfo T' = CachedMemoryInfo T) \<and>
   ((\<forall>w \<in> set (TrackedObjects T). Get E w \<noteq> Some x) \<longrightarrow> UnregisterObject E (Some x) T = Some T) \<and>
   (i < length (TrackedObjects T) \<and> Get E (TrackedObjects T ! i) = Some x \<and>
    (\<forall>j. i < j \<and> j < length (TrackedObjects T) \<longrightarrow> Get E (TrackedObjects T ! j) \<noteq> Some x) \<longrightarrow>
      UnregisterObject E (Some x) T =
        Some (T\<lparr>TrackedObjects := butlast ((TrackedObjects T)[i := last (TrackedObjects T)])\<rparr>) \<and>
      mset (TrackedObjects T) =
        add_mset (TrackedObjects T ! i)
          (mset (butlast ((TrackedObjects T)[i := last (TrackedObjects T)]))) \<and>
      length (butlast ((TrackedObjects T)[i := last (TrackedObjects T)])) =
        length (TrackedObjects T) - 1)"
proof -
  let ?ws = "TrackedObjects T"
  have none: "UnregisterObject E (Some x) T = Some T" if "\<forall>w \<in> set ?ws. Get E w \<noteq> Some x"
    using that by (simp add: UnregisterObject_def UnregisterObject_loop_no_match)
  have one: "UnregisterObject E (Some x) T = Some (T\<lparr>TrackedObjects := butlast (?ws[i := last ?ws])\<rparr>)"
    if "i < length ?ws" "Get E (?ws ! i) = Some x"
      "\<forall>j. i < j \<and> j < length ?ws \<longrightarrow> Get E (?ws ! j) \<noteq> Some x" for i
    using that by (simp add: UnregisterObject_def UnregisterObject_loop_match)
  have ex: "\<exists>T'. UnregisterObject E (Some x) T = Some T' \<and> T' = T\<lparr>TrackedObjects := TrackedObjects T'\<rparr> \<and>
         CachedMemoryInfo T' = CachedMemoryInfo T"
  proof (cases "\<forall>w \<in> set ?ws. Get E w \<noteq> Some x")
    case True
    with none show ?thesis by simp
  next
    case False
    then obtain k where k: "k < length ?ws" "Get E (?ws ! k) = Some x"
      by (auto simp: in_set_conv_nth)
    then have "\<exists>k<length ?ws. Get E (?ws ! k) = Some x" by blast
    from last_match_exists [OF this] obtain m where
      "m < length ?ws \<and> Get E (?ws ! m) = Some x"
      "\<forall>j. m < j \<and> j < length ?ws \<longrightarrow> Get E (?ws ! j) \<noteq> Some x"
      by blast
    then show ?thesis using one [of m] by simp
  qed
  have parts: "mset ?ws = add_mset (?ws ! i) (mset (butlast (?ws[i := last ?ws]))) \<and>
      length (butlast (?ws[i := last ?ws])) = length ?ws - 1" if "i < length ?ws"
    using that swap_remove_mset [of i ?ws] by simp
  from ex none one [of i] parts show ?thesis by blast
qed

theorem UnregisterObject_removes_one_witness:
  "(2::nat) < length (TrackedObjects (ExampleTracker\<lparr>TrackedObjects := [Some 1, Some 3, Some 1, Some 4]\<rparr>)) \<and>
   Get ExampleEngine
     (TrackedObjects (ExampleTracker\<lparr>TrackedObjects := [Some 1, Some 3, Some 1, Some 4]\<rparr>) ! 2) = Some 1 \<and>
   UnregisterObject ExampleEngine (Some 1)
     (ExampleTracker\<lparr>TrackedObjects := [Some 1, Some 3, Some 1, Some 4]\<rparr>) =
     Some (ExampleTracker\<lparr>TrackedObjects := [Some 1, Some 3, Some 4]\<rparr>) \<and>
   Some 4 \<notin> Get ExampleEngine ` set (TrackedObjects ExampleTracker) \<and>
   UnregisterObject ExampleEngine (Some 4) ExampleTracker = Some ExampleTracker"
proof -
  let ?T = "ExampleTracker\<lparr>TrackedObjects := [Some 1, Some 3, Some 1, Some 4]\<rparr>"
  have h: "2 < length (TrackedObjects ?T) \<and> Get ExampleEngine (TrackedObjects ?T ! 2) = Some 1 \<and>
      (\<forall>j. 2 < j \<and> j < length (TrackedObjects ?T) \<longrightarrow>
           Get ExampleEngine (TrackedObjects ?T ! j) \<noteq> Some 1)"
  proof -
    have "j = 3" if "2 < j \<and> j < length (TrackedObjects ?T)" for j
      using that by simp
    then show ?thesis
      by (auto simp: Get_def ExampleEngine_def)
  qed
  have n: "\<forall>w \<in> set (TrackedObjects ExampleTracker). Get ExampleEngine w \<noteq> Some 4"
    by (simp add: ExampleTracker_def Get_def ExampleEngine_def)
  from h UnregisterObject_removes_one [where E = ExampleEngine and x = 1 and T = "?T" and i = 2]
  have "UnregisterObject ExampleEngine (Some 1) ?T =
      Some (?T\<lparr>TrackedObjects := butlast ((TrackedObjects ?T)[2 := last (TrackedObjects ?T)])\<rparr>)"
    by blast
  then have 1: "UnregisterObject ExampleEngine (Some 1) ?T =
      Some (ExampleTracker\<lparr>TrackedObjects := [Some 1, Some 3, Some 4]\<rparr>)"
    by simp
  from n UnregisterObject_removes_one [where E = ExampleEngine and x = 4 and T = ExampleTracker and i = 0]
  have 2: "UnregisterObject ExampleEngine (Some 4) ExampleTracker = Some ExampleTracker"
    by blast
  from n have "Some 4 \<notin> Get ExampleEngine ` set (TrackedObjects ExampleTracker)"
    by (metis imageE)
  with h 1 2 show ?thesis by blast
qed

lemma AlreadyTracked_iff:
  "AlreadyTracked E x ws \<longleftrightarrow> x \<in> set (LiveReferents E ws)"
  by (induction ws) (auto simp: LiveReferents_simps split: option.splits)

lemma mset_LiveReferents:
  "mset (LiveReferents E ws) = image_mset (\<lambda>w. the (Get E w)) (filter_mset (IsValid E) (mset ws))"
  by (induction ws) (auto simp: LiveReferents_simps IsValid_Get split: option.splits)

lemma LiveReferents_mono:
  assumes "mset ws' \<subseteq># mset ws"
  shows "mset (LiveReferents E ws') \<subseteq># mset (LiveReferents E ws)"
  unfolding mset_LiveReferents
  by (intro image_mset_subseteq_mono multiset_filter_mono assms)

lemma distinct_submultiset:
  assumes sub: "mset xs \<subseteq># mset ys" and d: "distinct ys"
  shows "distinct xs"
proof -
  have "count (mset xs) a = (if a \<in> set xs then 1 else 0)" for a
  proof (cases "a \<in> set xs")
    case True
    then have "0 < count (mset xs) a" by simp
    moreover have "count (mset xs) a \<le> count (mset ys) a"
      using sub by (rule mset_subset_eq_count)
    moreover have "count (mset ys) a \<le> 1"
      using d by (simp add: distinct_count_atmost_1)
    ultimately have "count (mset xs) a = 1" by linarith
    with True show ?thesis by simp
  next
    case False
    then show ?thesis by (simp add: count_eq_zero_iff)
  qed
  then show ?thesis by (simp add: distinct_count_atmost_1)
qed

lemma NoDuplicateReferents_shrink:
  assumes "NoDuplicateReferents E T" and "mset (TrackedObjects T') \<subseteq># mset (TrackedObjects T)"
  shows "NoDuplicateReferents E T'"
  using assms unfolding NoDuplicateReferents_def
  by (blast intro: distinct_submultiset LiveReferents_mono)

lemma NoDuplicateReferents_same:
  assumes "NoDuplicateReferents E T" and "TrackedObjects T' = TrackedObjects T"
  shows "NoDuplicateReferents E T'"
  using assms by (simp add: NoDuplicateReferents_def)

lemma TrackedObjects_RegisterObject:
  "TrackedObjects (RegisterObject E (Some x) T) =
     (if x \<in> set (LiveReferents E (TrackedObjects T)) then TrackedObjects T
      else TrackedObjects T @ [Some x])"
  by (simp add: RegisterObject_def AlreadyTracked_iff)

lemma NoDuplicateReferents_RegisterObject:
  assumes "NoDuplicateReferents E T"
  shows "NoDuplicateReferents E (RegisterObject E obj T)"
proof (cases obj)
  case None
  with assms show ?thesis
    by (simp add: RegisterObject_def UE_LOG_def NoDuplicateReferents_def)
next
  case (Some x)
  with assms show ?thesis
    by (auto simp: NoDuplicateReferents_def TrackedObjects_RegisterObject LiveReferents_snoc
        Get_def split: option.splits)
qed

lemma RegisterObject_twice:
  assumes "ObjectState E x = Live"
  shows "RegisterObject E (Some x) (RegisterObject E (Some x) T) = RegisterObject E (Some x) T"
proof -
  have "x \<in> set (LiveReferents E (TrackedObjects (RegisterObject E (Some x) T)))"
    using assms by (auto simp: TrackedObjects_RegisterObject set_LiveReferents)
  then show ?thesis
    by (simp add: RegisterObject_def [of E "Some x" "RegisterObject E (Some x) T"] AlreadyTracked_iff)
qed

lemma NoDuplicateReferents_UnregisterObject:
  assumes "NoDuplicateReferents E T"
  shows "\<exists>T'. UnregisterObject E obj T = Some T' \<and> NoDuplicateReferents E T'"
proof (cases obj)
  case None
  with assms show ?thesis
    by (simp add: UnregisterObject_def UE_LOG_def NoDuplicateReferents_def)
next
  case (Some x)
  let ?ws = "TrackedObjects T"
  show ?thesis
  proof (cases "\<exists>k<length ?ws. Get E (?ws ! k) = Some x")
    case True
    from last_match_exists [OF this] obtain m where
      m: "m < length ?ws" "Get E (?ws ! m) = Some x"
      "\<forall>j. m < j \<and> j < length ?ws \<longrightarrow> Get E (?ws ! j) \<noteq> Some x"
      by blast
    then have run: "UnregisterObject E obj T =
        Some (T\<lparr>TrackedObjects := butlast (?ws[m := last ?ws])\<rparr>)"
      using Some by (simp add: UnregisterObject_def UnregisterObject_loop_match)
    have "mset (butlast (?ws[m := last ?ws]))
        \<subseteq># add_mset (?ws ! m) (mset (butlast (?ws[m := last ?ws])))"
      by simp
    also have "\<dots> = mset ?ws"
      using swap_remove_mset [OF m(1)] by simp
    finally have "mset (butlast (?ws[m := last ?ws])) \<subseteq># mset ?ws" .
    then have "NoDuplicateReferents E (T\<lparr>TrackedObjects := butlast (?ws[m := last ?ws])\<rparr>)"
      using NoDuplicateReferents_shrink [OF assms, of "T\<lparr>TrackedObjects := butlast (?ws[m := last ?ws])\<rparr>"]
      by simp
    with run show ?thesis by simp
  next
    case False
    then have "UnregisterObject E obj T = Some T"
      using Some by (simp add: UnregisterObject_def UnregisterObject_loop_no_match)
    with assms show ?thesis by simp
  qed
qed

lemma NoDuplicateReferents_TickComponent:
  fixes T :: "('t::{zero,plus,ord}) UMemoryUsageTracker"
  assumes "NoDuplicateReferents E T"
  shows "\<exists>T'. TickComponent E DeltaTime T = Some T' \<and> NoDuplicateReferents E T'"
proof -
  let ?T = "T\<lparr>TimeAccumulator := TimeAccumulator T + DeltaTime\<rparr>"
  from SamplingPass_result [of E ?T] obtain T' where
    run: "SamplingPass E ?T = Some T'" and
    tr: "mset (TrackedObjects T') = mset (filter (IsValid E) (TrackedObjects ?T))"
    by blast
  from tr have "mset (TrackedObjects T') \<subseteq># mset (TrackedObjects T)"
    by simp
  with assms have "NoDuplicateReferents E T'"
    by (rule NoDuplicateReferents_shrink)
  moreover have "NoDuplicateReferents E ?T"
    using assms by (simp add: NoDuplicateReferents_def)
  ultimately show ?thesis
    using assms run by (auto simp: TickComponent_def Let_def)
qed

lemma LiveReferents_later:
  assumes "\<And>x. ObjectState E' x = Live \<Longrightarrow> ObjectState E x = Live"
  shows "LiveReferents E' ws = filter (\<lambda>x. ObjectState E' x = Live) (LiveReferents E ws)"
proof (induction ws)
  case Nil
  show ?case by (simp add: LiveReferents_simps)
next
  case (Cons w ws)
  show ?case
  proof (cases w)
    case None
    with Cons show ?thesis by (simp add: LiveReferents_simps Get_def)
  next
    case (Some x)
    show ?thesis
    proof (cases "ObjectState E' x = Live")
      case True
      with assms have "ObjectState E x = Live" by simp
      with True Some Cons show ?thesis by (simp add: LiveReferents_simps Get_def)
    next
      case False
      with Some Cons show ?thesis by (simp add: LiveReferents_simps Get_def)
    qed
  qed
qed

lemma TrackedObjects_fold_UE_LOG:
  "TrackedObjects (fold (\<lambda>Info. UE_LOG v (f Info)) xs T) = TrackedObjects T"
  by (induction xs arbitrary: T) (simp_all add: UE_LOG_def)


lemma TrackedObjects_UE_LOG: "TrackedObjects (UE_LOG v msg T) = TrackedObjects T"
  by (simp add: UE_LOG_def)

lemma TrackedObjects_DumpMemoryUsageToLog:
  "TrackedObjects (DumpMemoryUsageToLog Printf T) = TrackedObjects T"
  by (simp add: DumpMemoryUsageToLog_def TrackedObjects_UE_LOG TrackedObjects_fold_UE_LOG)

text \<open>
  C7. No two tracked handles resolve to the same live object: this holds of a new tracker
  and every operation of the component keeps it, as does the death of objects between
  operations (an object that has stopped being live stays so). \<open>RegisterObject\<close> appends a handle exactly when no tracked handle resolves to
  the argument, so registering a live object a second time changes nothing, and twice on a
  new tracker leaves one handle.
\<close>

theorem tracked_set_has_no_duplicate_referents:
  fixes T :: "('t::{zero,plus,ord}) UMemoryUsageTracker"
  shows
  "NoDuplicateReferents E (NewMemoryUsageTracker Five :: 't UMemoryUsageTracker) \<and>
   TrackedObjects (RegisterObject E (Some x) T) =
     (if x \<in> set (LiveReferents E (TrackedObjects T)) then TrackedObjects T
      else TrackedObjects T @ [Some x]) \<and>
   (ObjectState E x = Live \<longrightarrow>
      RegisterObject E (Some x) (RegisterObject E (Some x) T) = RegisterObject E (Some x) T \<and>
      length (TrackedObjects (RegisterObject E (Some x) (RegisterObject E (Some x)
                (NewMemoryUsageTracker Five :: 't UMemoryUsageTracker)))) = 1) \<and>
   (NoDuplicateReferents E T \<longrightarrow>
      NoDuplicateReferents E (RegisterObject E obj T) \<and>
      (\<exists>T'. UnregisterObject E obj T = Some T' \<and> NoDuplicateReferents E T') \<and>
      (\<exists>T'. TickComponent E DeltaTime T = Some T' \<and> NoDuplicateReferents E T') \<and>
      NoDuplicateReferents E (BeginPlay T) \<and>
      NoDuplicateReferents E (EndPlay T) \<and>
      NoDuplicateReferents E (StartTracking Hundredth Interval T) \<and>
      NoDuplicateReferents E (StopTracking T) \<and>
      NoDuplicateReferents E (ClearCachedInfo T) \<and>
      NoDuplicateReferents E (DumpMemoryUsageToLog Printf T) \<and>
      ((\<forall>y. ObjectState E' y = Live \<longrightarrow> ObjectState E y = Live) \<longrightarrow> NoDuplicateReferents E' T))"
proof -
  have new: "NoDuplicateReferents E (NewMemoryUsageTracker Five :: 't UMemoryUsageTracker)"
    by (simp add: NoDuplicateReferents_def NewMemoryUsageTracker_def LiveReferents_simps)
  have twice: "RegisterObject E (Some x) (RegisterObject E (Some x) T) = RegisterObject E (Some x) T \<and>
      length (TrackedObjects (RegisterObject E (Some x) (RegisterObject E (Some x)
                (NewMemoryUsageTracker Five :: 't UMemoryUsageTracker)))) = 1"
    if "ObjectState E x = Live"
    using that
    by (simp add: RegisterObject_twice TrackedObjects_RegisterObject NewMemoryUsageTracker_def
        LiveReferents_simps)
  have same: "NoDuplicateReferents E (BeginPlay T) \<and>
      NoDuplicateReferents E (EndPlay T) \<and>
      NoDuplicateReferents E (StartTracking Hundredth Interval T) \<and>
      NoDuplicateReferents E (StopTracking T) \<and>
      NoDuplicateReferents E (ClearCachedInfo T) \<and>
      NoDuplicateReferents E (DumpMemoryUsageToLog Printf T)"
    if "NoDuplicateReferents E T"
    using that
    by (simp add: NoDuplicateReferents_def BeginPlay_def EndPlay_def StartTracking_def
        StopTracking_def ClearCachedInfo_def TrackedObjects_DumpMemoryUsageToLog)
  have later: "NoDuplicateReferents E' T"
    if "NoDuplicateReferents E T" "\<forall>y. ObjectState E' y = Live \<longrightarrow> ObjectState E y = Live"
    using that by (simp add: NoDuplicateReferents_def LiveReferents_later [of E' E])
  show ?thesis
    using new twice same later TrackedObjects_RegisterObject [of E x T]
      NoDuplicateReferents_RegisterObject [of E T obj]
      NoDuplicateReferents_UnregisterObject [of E T obj]
      NoDuplicateReferents_TickComponent [of E T DeltaTime]
    by blast
qed

theorem tracked_set_has_no_duplicate_referents_witness:
  "NoDuplicateReferents ExampleEngine ExampleTracker \<and>
   ObjectState ExampleEngine 1 = Live \<and>
   RegisterObject ExampleEngine (Some 1) (RegisterObject ExampleEngine (Some 1) ExampleTracker) =
     RegisterObject ExampleEngine (Some 1) ExampleTracker \<and>
   TrackedObjects (RegisterObject ExampleEngine (Some 1)
     (RegisterObject ExampleEngine (Some 1) (NewMemoryUsageTracker 5 :: int UMemoryUsageTracker)))
     = [Some 1] \<and>
   NoDuplicateReferents ExampleEngine (RegisterObject ExampleEngine (Some 4) ExampleTracker) \<and>
   (\<exists>T'. UnregisterObject ExampleEngine (Some 4) ExampleTracker = Some T' \<and>
         NoDuplicateReferents ExampleEngine T') \<and>
   (\<exists>T'. TickComponent ExampleEngine 1 ExampleTracker = Some T' \<and>
         NoDuplicateReferents ExampleEngine T') \<and>
   NoDuplicateReferents LaterEngine ExampleTracker"
proof -
  have inv: "NoDuplicateReferents ExampleEngine ExampleTracker"
    by (simp add: NoDuplicateReferents_def ExampleTracker_def ExampleEngine_def
        LiveReferents_simps Get_def)
  have live: "ObjectState ExampleEngine 1 = Live"
    by (simp add: ExampleEngine_def)
  have later: "\<forall>y. ObjectState LaterEngine y = Live \<longrightarrow> ObjectState ExampleEngine y = Live"
    by (simp add: LaterEngine_def ExampleEngine_def)
  note t = tracked_set_has_no_duplicate_referents [where E = ExampleEngine and T = ExampleTracker
      and x = 1 and obj = "Some 4" and DeltaTime = 1 and E' = LaterEngine and Five = 5]
  have one: "TrackedObjects (RegisterObject ExampleEngine (Some 1)
     (RegisterObject ExampleEngine (Some 1) (NewMemoryUsageTracker 5 :: int UMemoryUsageTracker)))
     = [Some 1]"
  proof -
    from t live have "length (TrackedObjects (RegisterObject ExampleEngine (Some 1)
       (RegisterObject ExampleEngine (Some 1) (NewMemoryUsageTracker 5 :: int UMemoryUsageTracker)))) = 1"
      by blast
    moreover have "TrackedObjects (RegisterObject ExampleEngine (Some 1)
       (NewMemoryUsageTracker 5 :: int UMemoryUsageTracker)) = [Some 1]"
      by (simp add: RegisterObject_def NewMemoryUsageTracker_def)
    moreover from t live have "RegisterObject ExampleEngine (Some 1)
       (RegisterObject ExampleEngine (Some 1) (NewMemoryUsageTracker 5 :: int UMemoryUsageTracker)) =
       RegisterObject ExampleEngine (Some 1) (NewMemoryUsageTracker 5 :: int UMemoryUsageTracker)"
      using tracked_set_has_no_duplicate_referents [where E = ExampleEngine
          and T = "NewMemoryUsageTracker 5 :: int UMemoryUsageTracker" and x = 1]
      by blast
    ultimately show ?thesis by simp
  qed
  from t inv live later one show ?thesis by blast
qed

end
